theory Spec2Isabelle
  imports Main "HOL-Library.Sublist"
begin

text \<open>
  A shallow embedding of \<open>src/features/file_download_feature.py\<close>: the pattern matcher
  \<open>find_matching_files\<close>, the methods of \<open>_ScriptHandler\<close> that resolve and stage files
  and notify the listeners of inline images, the line buffer \<open>InlineImageListener\<close>, and
  \<open>_get_paths\<close> with \<open>_extract_path\<close>. Definitions come first, in the order of their
  dependencies; the properties follow, one section for each part.
\<close>

section \<open>Python values and string operations the feature relies on\<close>

text \<open>
  Strings are lists of 8-bit characters. Exceptions are values of \<open>error\<close>; a function
  that can raise returns \<open>error + 'a\<close> with \<open>Inl\<close> for the exception.
\<close>

datatype error =
    FileExistsException
  | IndexError
  | TypeError
  | ReError
  | AttributeError
  | OtherError string

text \<open>\<open>s.startswith(p)\<close>.\<close>

definition startswith :: "string \<Rightarrow> string \<Rightarrow> bool" where
  "startswith s p = prefix p s"

text \<open>\<open>sub in s\<close> for strings.\<close>

fun contains :: "string \<Rightarrow> string \<Rightarrow> bool" where
  "contains [] sub = (sub = [])"
| "contains (c # cs) sub = (startswith (c # cs) sub \<or> contains cs sub)"

text \<open>\<open>s[a:b]\<close> for non-negative \<open>a\<close> and \<open>b\<close>.\<close>

definition slice :: "string \<Rightarrow> nat \<Rightarrow> nat \<Rightarrow> string" where
  "slice s a b = take (b - a) (drop a s)"

text \<open>
  \<open>s.find(c, start)\<close> for a one-character needle: the least index \<open>i \<ge> start\<close> with
  \<open>s[i] = c\<close>; Python's \<open>-1\<close> is \<open>None\<close>.
\<close>

primrec find_char :: "char \<Rightarrow> string \<Rightarrow> nat option" where
  "find_char c [] = None"
| "find_char c (x # xs) = (if x = c then Some 0 else map_option Suc (find_char c xs))"

definition py_find :: "string \<Rightarrow> char \<Rightarrow> nat \<Rightarrow> nat option" where
  "py_find s c start = map_option (\<lambda>i. i + start) (find_char c (drop start s))"

text \<open>
  \<open>s.replace(old, new)\<close>: every non-overlapping occurrence of \<open>old\<close>, left to right.
  The feature calls it with the non-empty literal \<open>#any_path\<close> only; for an empty \<open>old\<close>
  the model leaves \<open>s\<close> as it is.
\<close>

function str_replace :: "string \<Rightarrow> string \<Rightarrow> string \<Rightarrow> string" where
  "str_replace [] old new = []"
| "str_replace (c # cs) old new =
     (if old \<noteq> [] \<and> startswith (c # cs) old
      then new @ str_replace (drop (length old) (c # cs)) old new
      else c # str_replace cs old new)"
  by pat_completeness auto
termination
  by (relation "measure (\<lambda>(s, old, new). length s)") auto

text \<open>\<open>int(s)\<close> on a string of ASCII digits.\<close>

definition is_digit :: "char \<Rightarrow> bool" where
  "is_digit c = (c \<in> set ''0123456789'')"

definition int_of_digits :: "string \<Rightarrow> nat" where
  "int_of_digits ds = foldl (\<lambda>n c. 10 * n + (of_char c - 48)) 0 ds"

section \<open>The pattern matcher: \<open>find_matching_files\<close>\<close>

subsection \<open>Collaborators\<close>

text \<open>
  A match object of \<open>re\<close>: the text of group 0 (the whole match) and of the numbered
  groups; \<open>None\<close> is a group that took no part in the match.
\<close>

type_synonym match = "string option list"

text \<open>\<open>match.group(n)\<close>: \<open>IndexError\<close> when the regex has no group \<open>n\<close>.\<close>

definition match_group :: "match \<Rightarrow> nat \<Rightarrow> error + string option" where
  "match_group m n = (if n < length m then Inr (m ! n) else Inl IndexError)"

text \<open>
  Everything the feature calls that is not part of it, as parameters: the platform
  (\<open>os_utils\<close>), the regular expression engine (\<open>re\<close>), the file system (\<open>os.path\<close>,
  \<open>shutil\<close>, \<open>file_utils\<close>). \<open>'w\<close> is the state of the world outside the handler (the
  file system, and whatever the listeners write to).
\<close>

record 'w env =
  path_sep :: string
  re_escape :: "string \<Rightarrow> string"
  is_linux :: bool
  is_mac :: bool
  is_win :: bool
  re_finditer :: "string \<Rightarrow> string \<Rightarrow> error + match list"
  search_glob :: "'w \<Rightarrow> string \<Rightarrow> bool \<Rightarrow> string list"
  normalize_path :: "string \<Rightarrow> string \<Rightarrow> string"
  path_exists :: "'w \<Rightarrow> string \<Rightarrow> bool"
  path_isdir :: "'w \<Rightarrow> string \<Rightarrow> bool"
  path_join :: "string \<Rightarrow> string \<Rightarrow> string"
  path_basename :: "string \<Rightarrow> string"
  create_unique_filename :: "'w \<Rightarrow> string \<Rightarrow> error + string"
  copyfile :: "string \<Rightarrow> string \<Rightarrow> 'w \<Rightarrow> error option \<times> 'w"

text \<open>
  Modelled from the spec: \<open>string_utils.replace\<close> is not among the sources. The new
  declaration is "the original with the span from the directive's opening marker through
  its closing marker replaced by the extracted text". The spec speaks of a text only; for
  a group that took no part in the match (\<open>None\<close>) the model raises \<open>TypeError\<close>, as the
  concatenation of a string and \<open>None\<close> does.
\<close>

definition replace_span :: "string \<Rightarrow> string option \<Rightarrow> nat \<Rightarrow> nat \<Rightarrow> error + string" where
  "replace_span text replacement start end =
     (case replacement of
        None \<Rightarrow> Inl TypeError
      | Some r \<Rightarrow> Inr (take start text @ r @ drop (end + 1) text))"

subsection \<open>Finding the directive\<close>

text \<open>
  \<open>re.findall('^#\d+#', s)\<close>: at most one match, at the start of \<open>s\<close>: a \<open>#\<close>, the longest
  run of digits (at least one), a \<open>#\<close>.
\<close>

definition group_number_matches :: "string \<Rightarrow> string list" where
  "group_number_matches s =
     (case s of
        [] \<Rightarrow> []
      | c # r \<Rightarrow>
          (let ds = takeWhile is_digit r in
           if c = CHR ''#'' \<and> ds \<noteq> [] \<and> startswith (drop (length ds) r) ''#''
           then [''#'' @ ds @ ''#''] else []))"

text \<open>What \<open>find\<close> returns, as the termination of the scan below needs it.\<close>

lemma find_char_Some: "find_char c xs = Some i \<Longrightarrow> i < length xs \<and> xs ! i = c \<and> (\<forall>j<i. xs ! j \<noteq> c)"
proof (induction xs arbitrary: i)
  case Nil
  then show ?case by simp
next
  case (Cons x xs)
  show ?case
  proof (cases "x = c")
    case True
    with Cons.prems show ?thesis by simp
  next
    case False
    with Cons.prems obtain k where k: "find_char c xs = Some k" "i = Suc k"
      by auto
    from Cons.IH [OF k(1)] False k(2) show ?thesis
      by (auto simp: nth_Cons split: nat.splits)
  qed
qed

lemma find_char_None: "find_char c xs = None \<longleftrightarrow> c \<notin> set xs"
  by (induction xs) auto

lemma py_find_Some:
  assumes "py_find s c k = Some i"
  shows "k \<le> i \<and> i < length s \<and> s ! i = c \<and> (\<forall>j. k \<le> j \<and> j < i \<longrightarrow> s ! j \<noteq> c)"
proof -
  from assms obtain d where d: "find_char c (drop k s) = Some d" and i: "i = d + k"
    by (auto simp: py_find_def)
  from find_char_Some [OF d]
  have d1: "d < length s - k" and d2: "drop k s ! d = c" and d3: "\<forall>j<d. drop k s ! j \<noteq> c"
    by auto
  have "s ! j \<noteq> c" if "k \<le> j" "j < i" for j
  proof -
    from that i have "j - k < d" by arith
    with d3 have "drop k s ! (j - k) \<noteq> c" by blast
    moreover from that d1 i have "k + (j - k) = j" "j < length s" by arith+
    ultimately show ?thesis by (simp add: nth_drop)
  qed
  moreover from d1 d2 i have "s ! i = c" by (simp add: nth_drop add.commute)
  ultimately show ?thesis using d1 i by auto
qed

lemma py_find_None: "py_find s c k = None \<longleftrightarrow> c \<notin> set (drop k s)"
  by (simp add: py_find_def find_char_None)

text \<open>
  The loop that looks for the closing marker:
  \<^verbatim>\<open>while (regex_end >= 0) and output_pattern[regex_end:].startswith('#any_path'):
    regex_end = output_pattern.find('#', regex_end + 1)\<close>
\<close>

function find_closing :: "string \<Rightarrow> nat option \<Rightarrow> nat option" where
  "find_closing s regex_end =
     (case regex_end of
        None \<Rightarrow> None
      | Some i \<Rightarrow>
          if startswith (drop i s) ''#any_path''
          then find_closing s (py_find s CHR ''#'' (i + 1))
          else Some i)"
  by pat_completeness auto
termination
proof (relation "measure (\<lambda>(s, e). case e of None \<Rightarrow> 0 | Some i \<Rightarrow> Suc (length s - i))")
  show "wf (measure (\<lambda>(s, e). case e of None \<Rightarrow> 0 | Some i \<Rightarrow> Suc (length s - i)))"
    by simp
next
  fix s :: string and regex_end :: "nat option" and i :: nat
  assume "regex_end = Some i" "startswith (drop i s) ''#any_path''"
  then show "((s, py_find s CHR ''#'' (i + 1)), s, regex_end)
      \<in> measure (\<lambda>(s, e). case e of None \<Rightarrow> 0 | Some i \<Rightarrow> Suc (length s - i))"
    by (cases "py_find s CHR ''#'' (i + 1)") (auto dest!: py_find_Some)
qed

declare find_closing.simps [simp del]

text \<open>
  What the matcher knows of a directive once it has found one: the capture group to
  extract, the index of the opening marker (\<open>regex_start\<close>), the index of the marker
  the regex body starts after (\<open>pattern_start\<close>: the opening marker, or the second marker
  of a group prefix \<open>#<digits>#\<close>), and the index of the closing marker (\<open>regex_end\<close>).
\<close>

record directive =
  group_number :: nat
  regex_start :: nat
  pattern_start :: nat
  regex_end :: nat

text \<open>
  Lines 246 to 262 of the source: \<open>None\<close> when the declaration has no \<open>#\<close>, or when the
  scan for the closing marker ends with \<open>regex_end < 0\<close>.
\<close>

definition find_directive :: "string \<Rightarrow> directive option" where
  "find_directive output_pattern =
     (if CHR ''#'' \<notin> set output_pattern then None
      else
        (case py_find output_pattern CHR ''#'' 0 of
           None \<Rightarrow> None
         | Some rs \<Rightarrow>
             (let (gn, ps) =
                (case group_number_matches (drop rs output_pattern) of
                   first_match # _ \<Rightarrow>
                     (int_of_digits (slice first_match 1 (length first_match - 1)),
                      rs + length first_match - 1)
                 | [] \<Rightarrow> (0, rs))
              in
                (case find_closing output_pattern (py_find output_pattern CHR ''#'' (ps + 1)) of
                   None \<Rightarrow> None
                 | Some re \<Rightarrow>
                     Some \<lparr>group_number = gn, regex_start = rs, pattern_start = ps,
                           regex_end = re\<rparr>))))"

subsection \<open>The regular expression of a directive\<close>

definition backslash :: char where
  "backslash = CHR 0x5C"

text \<open>
  The expansion of the macro \<open>#any_path\<close>, the Python expression
  \<^verbatim>\<open>'(' + separator + '([\w.\-]|(\\\ ))+)+'\<close>: its last literal holds one backslash before
  \<open>w\<close> and before \<open>-\<close>, and two backslashes before the space.
\<close>

definition any_path_regex :: "string \<Rightarrow> string" where
  "any_path_regex separator =
     ''('' @ separator @ ''(['' @ [backslash] @ ''w.'' @ [backslash] @ ''-]|(''
       @ [backslash, backslash] @ '' ))+)+''"

text \<open>The anchor for Windows, \<^verbatim>\<open>'(([^\W\d_]:)|~)'\<close>.\<close>

definition win_anchor :: string where
  "win_anchor = ''(([^'' @ [backslash] @ ''W'' @ [backslash] @ ''d_]:)|~)''"

text \<open>
  Lines 265 to 271: the regex body \<open>regex_pattern\<close> of a directive whose opening marker
  is at index \<open>rs\<close> (the source's \<open>regex_start\<close>), anchored and with the macro expanded.
\<close>

definition expand_regex :: "'w env \<Rightarrow> string \<Rightarrow> nat \<Rightarrow> string" where
  "expand_regex env regex_pattern rs =
     (let separator = re_escape env (path_sep env);
          regex_pattern =
            (if startswith regex_pattern ''#any_path'' \<and> rs = 0 then
               (if is_linux env \<or> is_mac env then ''~?'' @ regex_pattern
                else if is_win env then win_anchor @ regex_pattern
                else regex_pattern)
             else regex_pattern)
      in str_replace regex_pattern ''#any_path'' (any_path_regex separator))"

text \<open>Line 263 and the above: the regex the matcher searches the output with.\<close>

definition regex_pattern_of :: "'w env \<Rightarrow> string \<Rightarrow> directive \<Rightarrow> string" where
  "regex_pattern_of env output_pattern d =
     expand_regex env (slice output_pattern (pattern_start d + 1) (regex_end d)) (regex_start d)"

text \<open>
  The anchor that lines 265 to 269 put before a body that starts with \<open>#any_path\<close>, in
  a directive at the very start of the declaration.
\<close>

definition platform_anchor :: "'w env \<Rightarrow> string" where
  "platform_anchor env =
     (if is_linux env \<or> is_mac env then ''~?'' else if is_win env then win_anchor else [])"

subsection \<open>The patterns of \<open>re\<close> that the macro needs, and what they match\<close>

text \<open>
  Modelled on Python's \<open>re\<close>: the patterns made of literal characters, escaped
  characters, character classes (with \<open>\w\<close>, \<open>\W\<close> and \<open>\d\<close>), groups, sequences,
  alternatives, \<open>+\<close> and \<open>?\<close>. \<open>rx_source\<close> is the text of a pattern as it is handed to
  \<open>re\<close>.
\<close>

datatype item = IChar char | IEsc char | IWord | INotWord | IDigit

datatype rx =
  RLit char
  | REsc char
  | RClass bool "item list"
  | RGroup rx
  | RSeq rx rx
  | RAlt rx rx
  | RPlus rx
  | ROpt rx



text \<open>
  The characters that \<open>\w\<close> matches in a \<open>str\<close> pattern, among the first 256 code
  points: the alphanumeric ones and the underscore.
\<close>

definition py_word_char :: "char \<Rightarrow> bool" where
  "py_word_char c =
     (let n = (of_char c :: nat) in
      (48 \<le> n \<and> n \<le> 57) \<or> (65 \<le> n \<and> n \<le> 90) \<or> n = 95 \<or> (97 \<le> n \<and> n \<le> 122)
      \<or> n \<in> {170, 178, 179, 181, 185, 186, 188, 189, 190}
      \<or> (192 \<le> n \<and> n \<le> 214) \<or> (216 \<le> n \<and> n \<le> 246) \<or> 248 \<le> n)"

fun item_matches :: "item \<Rightarrow> char \<Rightarrow> bool" where
  "item_matches (IChar c) x = (x = c)"
| "item_matches (IEsc c) x = (x = c)"
| "item_matches IWord x = py_word_char x"
| "item_matches INotWord x = (\<not> py_word_char x)"
| "item_matches IDigit x = is_digit x"

text \<open>
  The backtracking search of \<open>re\<close> for a pattern at the start of a string: what is left of
  the string after each way of matching, in the order in which the ways are tried (the first
  alternative before the second, one more repetition before none). The match that \<open>re\<close>
  reports is the first.
\<close>

fun rx_ends :: "rx \<Rightarrow> string \<Rightarrow> string list" where
  "rx_ends (RLit c) s = (case s of [] \<Rightarrow> [] | x # r \<Rightarrow> if x = c then [r] else [])"
| "rx_ends (REsc c) s = (case s of [] \<Rightarrow> [] | x # r \<Rightarrow> if x = c then [r] else [])"
| "rx_ends (RClass negated items) s =
     (case s of
        [] \<Rightarrow> []
      | x # r \<Rightarrow> if list_ex (\<lambda>i. item_matches i x) items \<noteq> negated then [r] else [])"
| "rx_ends (RGroup r) s = rx_ends r s"
| "rx_ends (RSeq a b) s = concat (map (rx_ends b) (rx_ends a s))"
| "rx_ends (RAlt a b) s = rx_ends a s @ rx_ends b s"
| "rx_ends (RPlus r) s =
     concat (map (\<lambda>m. (if length m < length s then rx_ends (RPlus r) m else []) @ [m])
       (rx_ends r s))"
| "rx_ends (ROpt r) s = rx_ends r s @ [s]"

declare rx_ends.simps(7) [simp del]

text \<open>
  \<open>re.finditer\<close>: the texts (group 0) of the matches from left to right, without overlap.
  After an empty match the search goes on at the same place for a match that is not empty
  (\<open>must_advance\<close>); where nothing matches it moves one character on.
\<close>

function rx_spans :: "rx \<Rightarrow> bool \<Rightarrow> string \<Rightarrow> string list" where
  "rx_spans r must_advance s =
     (case (if must_advance then filter (\<lambda>e. length e < length s) (rx_ends r s)
            else rx_ends r s) of
        e # _ \<Rightarrow>
          take (length s - length e) s
            # (if length e < length s then rx_spans r False e else rx_spans r True s)
      | [] \<Rightarrow>
          (case s of
             [] \<Rightarrow> []
           | c # cs \<Rightarrow> rx_spans r False cs))"
  by pat_completeness auto
termination
  apply (relation "measures [\<lambda>(r, must_advance, s). length s,
      \<lambda>(r, must_advance, s). if must_advance then 0 else 1]")
     apply simp
    apply simp
   apply (auto split: if_splits simp: filter_eq_Cons_iff)
  done

declare rx_spans.simps [simp del]

definition py_finditer :: "rx \<Rightarrow> string \<Rightarrow> string list" where
  "py_finditer r s = rx_spans r False s"

text \<open>
  The patterns of the source. \<open>re.escape\<close> leaves a slash as it is and escapes a
  backslash; the macro's expansion; the anchors of the platforms.
\<close>

definition separator_rx :: "char \<Rightarrow> rx" where
  "separator_rx sep = (if sep = backslash then REsc sep else RLit sep)"

definition unit_rx :: rx where
  "unit_rx =
     RGroup (RAlt (RClass False [IWord, IChar CHR ''.'', IEsc CHR ''-''])
                  (RGroup (RSeq (REsc backslash) (RLit CHR '' ''))))"

definition any_path_rx :: "char \<Rightarrow> rx" where
  "any_path_rx sep = RPlus (RGroup (RSeq (separator_rx sep) (RPlus unit_rx)))"

definition posix_anchor_rx :: rx where
  "posix_anchor_rx = ROpt (RLit CHR ''~'')"

definition win_anchor_rx :: rx where
  "win_anchor_rx =
     RGroup (RAlt (RGroup (RSeq (RClass True [INotWord, IDigit, IChar CHR ''_''])
                                (RLit CHR '':'')))
                  (RLit CHR ''~''))"

definition anchored_any_path_rx :: "bool \<Rightarrow> bool \<Rightarrow> char \<Rightarrow> rx" where
  "anchored_any_path_rx posix win sep =
     (if posix then RSeq posix_anchor_rx (any_path_rx sep)
      else if win then RSeq win_anchor_rx (any_path_rx sep)
      else any_path_rx sep)"

subsection \<open>A scanner for the expanded macro\<close>

text \<open>
  What the search comes to for the expansion of \<open>#any_path\<close> behind the anchor of a
  platform: every choice of this pattern is decided by the next characters, so that a
  greedy scan from left to right finds the matches (shown below, \<open>py_finditer_any_path\<close>).
\<close>


















subsection \<open>The worklist\<close>

text \<open>
  Lines 274 to 277, the loop over the matches: the declarations it appends to the
  worklist, or the exception that ends it.
\<close>

fun new_output_patterns :: "string \<Rightarrow> directive \<Rightarrow> match list \<Rightarrow> error + string list" where
  "new_output_patterns output_pattern d [] = Inr []"
| "new_output_patterns output_pattern d (m # ms) =
     (case match_group m (group_number d) of
        Inl e \<Rightarrow> Inl e
      | Inr matched_group \<Rightarrow>
          (case replace_span output_pattern matched_group (regex_start d) (regex_end d) of
             Inl e \<Rightarrow> Inl e
           | Inr new_output_pattern \<Rightarrow>
               (case new_output_patterns output_pattern d ms of
                  Inl e \<Rightarrow> Inl e
                | Inr rest \<Rightarrow> Inr (new_output_pattern # rest))))"

text \<open>
  The \<open>while\<close> loop of \<open>find_matching_files\<close> over the worklist \<open>output_patterns\<close> and the
  result \<open>files\<close>. A match can hold a directive again, so the loop need not end: the
  result is \<open>None\<close> when it does not, \<open>Some (Inl e)\<close> when an exception leaves it, and
  \<open>Some (Inr files)\<close> when it returns.
\<close>

partial_function (option) find_matching_files_loop ::
  "'w env \<Rightarrow> 'w \<Rightarrow> string \<Rightarrow> string list \<Rightarrow> string list \<Rightarrow> (error + string list) option"
where
  "find_matching_files_loop env w script_output output_patterns files =
     (case output_patterns of
        [] \<Rightarrow> Some (Inr files)
      | output_pattern # rest \<Rightarrow>
          (case find_directive output_pattern of
             Some d \<Rightarrow>
               (case re_finditer env (regex_pattern_of env output_pattern d) script_output of
                  Inl e \<Rightarrow> Some (Inl e)
                | Inr found_matches \<Rightarrow>
                    (case new_output_patterns output_pattern d found_matches of
                       Inl e \<Rightarrow> Some (Inl e)
                     | Inr new \<Rightarrow>
                         find_matching_files_loop env w script_output (rest @ new) files))
           | None \<Rightarrow>
               if CHR ''*'' \<notin> set output_pattern
               then find_matching_files_loop env w script_output rest (files @ [output_pattern])
               else find_matching_files_loop env w script_output rest
                      (files @ search_glob env w output_pattern (contains output_pattern ''**''))))"

definition find_matching_files ::
  "'w env \<Rightarrow> 'w \<Rightarrow> string \<Rightarrow> string \<Rightarrow> (error + string list) option"
where
  "find_matching_files env w file_pattern script_output =
     find_matching_files_loop env w script_output [file_pattern] []"

subsection \<open>Describing a directive's body\<close>

text \<open>
  A regex body in which a marker \<open>#\<close> only ever starts the token \<open>#any_path\<close>: the
  bodies that the scan for the closing marker reads through to their end.
\<close>

fun any_path_markers_only :: "string \<Rightarrow> bool" where
  "any_path_markers_only [] = True"
| "any_path_markers_only (c # cs) =
     ((c = CHR ''#'' \<longrightarrow> startswith (c # cs) ''#any_path'') \<and> any_path_markers_only cs)"

text \<open>\<open>sep.join(parts)\<close>.\<close>

fun join_with :: "string \<Rightarrow> string list \<Rightarrow> string" where
  "join_with sep [] = []"
| "join_with sep [x] = x"
| "join_with sep (x # y # ys) = x @ sep @ join_with sep (y # ys)"

text \<open>
  A regex body written as the pieces \<open>segs\<close> between its occurrences of the macro, that
  is the body \<open>join_with ''#any_path'' segs\<close>, should be searched as this regex: every
  occurrence of the macro replaced by its expansion, and the anchor of the platform in
  front when the body starts with the macro and the directive starts the declaration
  (\<open>at_start\<close>).
\<close>

definition directive_regex :: "'w env \<Rightarrow> bool \<Rightarrow> string list \<Rightarrow> string" where
  "directive_regex env at_start segs =
     (if at_start \<and> (case segs of [] # _ # _ \<Rightarrow> True | _ \<Rightarrow> False)
      then platform_anchor env else [])
     @ join_with (any_path_regex (re_escape env (path_sep env))) segs"

subsection \<open>Describing a path in a text\<close>






section \<open>The execution handler: \<open>_ScriptHandler\<close>\<close>

subsection \<open>State\<close>

datatype log_level = INFO | WARNING | ERROR | EXCEPTION

text \<open>
  A listener for inline images is a callback \<open>listener(original_path, download_path)\<close>:
  it acts on the world and may raise (\<open>Some e\<close>).
\<close>

type_synonym 'w listener = "string \<Rightarrow> string \<Rightarrow> 'w \<Rightarrow> error option \<times> 'w"

text \<open>
  A Python \<open>dict\<close> whose order of insertion is observed (\<open>result\<close>, iterated by
  \<open>items()\<close> and \<open>values()\<close>) is an association list; \<open>d[k] = v\<close> replaces the value of
  a key in place and appends a new key at the end.
\<close>

fun dict_set :: "('k \<times> 'v) list \<Rightarrow> 'k \<Rightarrow> 'v \<Rightarrow> ('k \<times> 'v) list" where
  "dict_set [] k v = [(k, v)]"
| "dict_set ((k', v') # d) k v = (if k' = k then (k, v) # d else (k', v') # dict_set d k v)"

text \<open>
  The fields of the handler that its methods read and write, together with the two
  things outside it that they change: the world (file system, listeners' effects) and
  what \<open>LOGGER\<close> was handed.
\<close>

record 'w state =
  download_folder :: string
  prepared_files :: "string \<rightharpoonup> string"
  result_files :: "string list"
  inline_images :: "string \<rightharpoonup> string"
  inline_image_listeners :: "'w listener list"
  world :: 'w
  log :: "(log_level \<times> string) list"

definition logged :: "log_level \<Rightarrow> string \<Rightarrow> 'w state \<Rightarrow> 'w state" where
  "logged level message st = st\<lparr>log := log st @ [(level, message)]\<rparr>"

subsection \<open>\<open>_prepare_downloadable_files\<close>: resolving\<close>

text \<open>
  Lines 181 to 189, the loop over the candidates \<open>files\<close> of one declaration; it reads
  the world and extends \<open>correct_files\<close> and the log.
\<close>

fun check_files ::
  "'w env \<Rightarrow> bool \<Rightarrow> string \<Rightarrow> string list \<Rightarrow> string list \<Rightarrow> 'w state \<Rightarrow> string list \<times> 'w state"
where
  "check_files env should_exist wd [] correct_files st = (correct_files, st)"
| "check_files env should_exist wd (file # files) correct_files st =
     (let file_path = normalize_path env file wd in
      if \<not> path_exists env (world st) file_path then
        check_files env should_exist wd files correct_files
          (if should_exist
           then logged WARNING (''file '' @ file @ '' (full path = '' @ file_path @ '') not found'') st
           else st)
      else if path_isdir env (world st) file_path then
        check_files env should_exist wd files correct_files
          (logged WARNING (''file '' @ file @ '' is a directory. Not allowed'') st)
      else if file_path \<notin> set correct_files then
        check_files env should_exist wd files (correct_files @ [file_path]) st
      else check_files env should_exist wd files correct_files st)"

text \<open>
  Lines 177 to 191, the loop over the declarations. \<open>None\<close>: the matcher does not
  return; \<open>Inl e\<close>: it raised.
\<close>

fun resolve_files ::
  "'w env \<Rightarrow> bool \<Rightarrow> string \<Rightarrow> string \<Rightarrow> string list \<Rightarrow> string list \<Rightarrow> 'w state
     \<Rightarrow> ((error + string list) \<times> 'w state) option"
where
  "resolve_files env should_exist wd script_output [] correct_files st =
     Some (Inr correct_files, st)"
| "resolve_files env should_exist wd script_output (output_file # output_files) correct_files st =
     (case find_matching_files env (world st) output_file script_output of
        None \<Rightarrow> None
      | Some (Inl e) \<Rightarrow> Some (Inl e, st)
      | Some (Inr files) \<Rightarrow>
          if files \<noteq> [] then
            (case check_files env should_exist wd files correct_files st of
               (correct_files', st') \<Rightarrow>
                 resolve_files env should_exist wd script_output output_files correct_files' st')
          else
            resolve_files env should_exist wd script_output output_files correct_files
              (if should_exist
               then logged WARNING (''Couldn't find file for '' @ output_file) st
               else st))"

subsection \<open>\<open>_prepare_downloadable_files\<close>: staging\<close>

text \<open>
  Lines 196 to 213, the loop over \<open>correct_files\<close>. Only \<open>FileExistsException\<close> from
  \<open>create_unique_filename\<close> is caught; \<open>copyfile\<close> stands outside the \<open>try\<close>.
\<close>

fun stage_files ::
  "'w env \<Rightarrow> string list \<Rightarrow> (string \<times> string) list \<Rightarrow> 'w state
     \<Rightarrow> (error + (string \<times> string) list) \<times> 'w state"
where
  "stage_files env [] result st = (Inr result, st)"
| "stage_files env (file # files) result st =
     (case prepared_files st file of
        Some staged \<Rightarrow> stage_files env files (dict_set result file staged) st
      | None \<Rightarrow>
          (let preferred_download_file =
                 path_join env (download_folder st) (path_basename env file) in
           case create_unique_filename env (world st) preferred_download_file of
             Inl e \<Rightarrow>
               if e = FileExistsException
               then stage_files env files result (logged EXCEPTION ''Cannot get unique name'' st)
               else (Inl e, st)
           | Inr download_file \<Rightarrow>
               (case copyfile env file download_file (world st) of
                  (Some e, w') \<Rightarrow> (Inl e, st\<lparr>world := w'\<rparr>)
                | (None, w') \<Rightarrow>
                    stage_files env files (dict_set result file download_file)
                      (st\<lparr>world := w',
                          prepared_files := (prepared_files st)(file \<mapsto> download_file)\<rparr>))))"

text \<open>The configuration of an execution, as far as this feature reads it.\<close>

datatype output_file = Str string | Dict "(string \<times> string) list" | Other

record 'p config =
  output_files :: "output_file list"
  parameters :: 'p
  working_directory :: string

definition prepare_downloadable_files ::
  "'w env \<Rightarrow> string list \<Rightarrow> 'p config \<Rightarrow> string \<Rightarrow> bool \<Rightarrow> 'w state
     \<Rightarrow> ((error + (string \<times> string) list) \<times> 'w state) option"
where
  "prepare_downloadable_files env output_files' config script_output should_exist st =
     (case resolve_files env should_exist (working_directory config) script_output
             output_files' [] st of
        None \<Rightarrow> None
      | Some (Inl e, st') \<Rightarrow> Some (Inl e, st')
      | Some (Inr correct_files, st') \<Rightarrow>
          if correct_files = [] then Some (Inr [], st')
          else Some (stage_files env correct_files [] st'))"

text \<open>
  \<open>_execution_finished\<close>; \<open>script_output\<close> is the joined output that
  \<open>read_until_closed\<close> returns.
\<close>

definition execution_finished ::
  "'w env \<Rightarrow> string list \<Rightarrow> 'p config \<Rightarrow> string \<Rightarrow> 'w state \<Rightarrow> (error option \<times> 'w state) option"
where
  "execution_finished env result_files_paths config script_output st =
     (case prepare_downloadable_files env result_files_paths config script_output True st of
        None \<Rightarrow> None
      | Some (Inl e, st') \<Rightarrow> Some (Some e, st')
      | Some (Inr downloadable_files, st') \<Rightarrow>
          Some (None, st'\<lparr>result_files := result_files st' @ map snd downloadable_files\<rparr>))"

subsection \<open>\<open>_add_inline_image\<close>\<close>

text \<open>Lines 223 to 227: every listener in turn, an exception of one logged and dropped.\<close>

fun notify_listeners :: "'w listener list \<Rightarrow> string \<Rightarrow> string \<Rightarrow> 'w state \<Rightarrow> 'w state" where
  "notify_listeners [] original_path download_path st = st"
| "notify_listeners (listener # listeners) original_path download_path st =
     (case listener original_path download_path (world st) of
        (None, w') \<Rightarrow> notify_listeners listeners original_path download_path (st\<lparr>world := w'\<rparr>)
      | (Some e, w') \<Rightarrow>
          notify_listeners listeners original_path download_path
            (logged ERROR ''Failed to notify image listener'' (st\<lparr>world := w'\<rparr>)))"

definition add_inline_image :: "string \<Rightarrow> string \<Rightarrow> 'w state \<Rightarrow> 'w state" where
  "add_inline_image original_path download_path st =
     (if original_path \<in> dom (inline_images st) then st
      else notify_listeners (inline_image_listeners st) original_path download_path
             (st\<lparr>inline_images := (inline_images st)(original_path \<mapsto> download_path)\<rparr>))"

text \<open>The loop \<open>for key, value in images.items()\<close> of \<open>prepare_images\<close>.\<close>

fun add_inline_images :: "(string \<times> string) list \<Rightarrow> 'w state \<Rightarrow> 'w state" where
  "add_inline_images [] st = st"
| "add_inline_images ((key, val) # images) st =
     add_inline_images images (add_inline_image key val st)"

subsection \<open>Describing a notification\<close>

text \<open>
  What each listener of a list answers when every one of them is called once, in the
  order of the list, each on the world the one before it left.
\<close>

fun listener_outcomes :: "'w listener list \<Rightarrow> string \<Rightarrow> string \<Rightarrow> 'w \<Rightarrow> error option list" where
  "listener_outcomes [] original_path download_path w = []"
| "listener_outcomes (listener # listeners) original_path download_path w =
     (case listener original_path download_path w of
        (r, w') \<Rightarrow> r # listener_outcomes listeners original_path download_path w')"

text \<open>
  The images of a sequence that are new: whose original path is not among \<open>seen\<close> and
  did not occur earlier in the sequence.
\<close>

fun new_images :: "(string \<times> string) list \<Rightarrow> string set \<Rightarrow> (string \<times> string) list" where
  "new_images [] seen = []"
| "new_images ((key, val) # images) seen =
     (if key \<in> seen then new_images images seen
      else (key, val) # new_images images (insert key seen))"

subsection \<open>\<open>InlineImageListener\<close>\<close>

text \<open>
  \<open>prepare_images\<close>, lines 163 to 170: resolve and stage against \<open>output\<close>, then add every
  image. The result is the exception that left it, if any, and the state.
\<close>

definition prepare_images ::
  "'w env \<Rightarrow> string list \<Rightarrow> 'p config \<Rightarrow> string \<Rightarrow> 'w state \<Rightarrow> (error option \<times> 'w state) option"
where
  "prepare_images env image_paths config output st =
     (case prepare_downloadable_files env image_paths config output True st of
        None \<Rightarrow> None
      | Some (Inl e, st') \<Rightarrow> Some (Some e, st')
      | Some (Inr images, st') \<Rightarrow> Some (None, add_inline_images images st'))"

text \<open>\<open>s.rfind(c)\<close>: the greatest index that holds \<open>c\<close>.\<close>

definition py_rfind :: "string \<Rightarrow> char \<Rightarrow> nat option" where
  "py_rfind s c = map_option (\<lambda>i. length s - 1 - i) (find_char c (rev s))"

record inline_image_listener =
  last_buffer :: string

text \<open>
  \<open>on_next\<close> and \<open>on_close\<close>, lines 140 to 160. The method \<open>prepare_images\<close> they call is
  the parameter \<open>prepare\<close>, acting on a state \<open>'s\<close>; in the handler it is \<open>prepare_images\<close>
  above. The result holds the exception that left the method, if any, the listener and
  the state; \<open>None\<close> when \<open>prepare\<close> does not return.
\<close>

definition on_next ::
  "(string \<Rightarrow> 's \<Rightarrow> (error option \<times> 's) option) \<Rightarrow> inline_image_listener \<Rightarrow> string \<Rightarrow> 's
     \<Rightarrow> (error option \<times> inline_image_listener \<times> 's) option"
where
  "on_next prepare self chunk st =
     (let output = last_buffer self @ chunk;
          self = self\<lparr>last_buffer := []\<rparr> in
      if CHR 0x0A \<notin> set output then Some (None, self\<lparr>last_buffer := output\<rparr>, st)
      else
        (case py_rfind output CHR 0x0A of
           None \<Rightarrow> Some (None, self\<lparr>last_buffer := output\<rparr>, st)
         | Some last_newline_index \<Rightarrow>
             (let self = self\<lparr>last_buffer := drop (last_newline_index + 1) output\<rparr>;
                  output = take last_newline_index output in
              if output \<noteq> [] then
                (case prepare output st of
                   None \<Rightarrow> None
                 | Some (r, st') \<Rightarrow> Some (r, self, st'))
              else Some (None, self, st))))"

definition on_close ::
  "(string \<Rightarrow> 's \<Rightarrow> (error option \<times> 's) option) \<Rightarrow> inline_image_listener \<Rightarrow> 's
     \<Rightarrow> (error option \<times> inline_image_listener \<times> 's) option"
where
  "on_close prepare self st =
     (if last_buffer self = [] then Some (None, self, st)
      else
        (case prepare (last_buffer self) st of
           None \<Rightarrow> None
         | Some (Some e, st') \<Rightarrow> Some (Some e, self, st')
         | Some (None, st') \<Rightarrow> Some (None, self\<lparr>last_buffer := []\<rparr>, st')))"

section \<open>The declarations of a configuration: \<open>_get_paths\<close> and \<open>_extract_path\<close>\<close>

text \<open>
  An entry of \<open>config.output_files\<close> is a string, a dict, or something else. The values
  of a dict are strings here, as in the data model \<open>{path: string, type: enum}\<close>;
  \<open>d.get(k)\<close> is \<open>map_of d k\<close>, \<open>None\<close> for a missing key.
\<close>

definition INLINE_IMAGE_TYPE :: string where
  "INLINE_IMAGE_TYPE = ''inline-image''"

text \<open>
  The helpers of the repository that are not among its sources, as parameters:
  \<open>string_utils.is_blank\<close>, \<open>model_helper.is_empty\<close> and
  \<open>model_helper.fill_parameter_values\<close>.
\<close>

record ('p, 'v) helpers =
  is_blank :: "string option \<Rightarrow> bool"
  is_empty :: "output_file list \<Rightarrow> bool"
  fill_parameter_values :: "'p \<Rightarrow> string \<Rightarrow> 'v \<Rightarrow> string"

text \<open>
  \<open>s.strip()\<close>: the characters Python's \<open>str\<close> counts as whitespace, among the first
  256 code points, removed from both ends.
\<close>

definition py_isspace :: "char \<Rightarrow> bool" where
  "py_isspace c = ((of_char c :: nat) \<in> {9, 10, 11, 12, 13, 28, 29, 30, 31, 32, 133, 160})"

definition py_strip :: "string \<Rightarrow> string" where
  "py_strip s = rev (dropWhile py_isspace (rev (dropWhile py_isspace s)))"

definition is_post_finish_path :: "output_file \<Rightarrow> bool" where
  "is_post_finish_path file =
     (case file of
        Str _ \<Rightarrow> True
      | Dict d \<Rightarrow> map_of d ''type'' \<noteq> Some INLINE_IMAGE_TYPE
      | Other \<Rightarrow> False)"

definition is_inline_image_path :: "output_file \<Rightarrow> bool" where
  "is_inline_image_path file =
     (case file of
        Dict d \<Rightarrow> map_of d ''type'' = Some INLINE_IMAGE_TYPE
      | _ \<Rightarrow> False)"

text \<open>
  \<open>_extract_path\<close>; \<open>path.strip()\<close> on \<open>None\<close> is an \<open>AttributeError\<close> (only when
  \<open>is_blank\<close> lets \<open>None\<close> through).
\<close>

definition extract_path :: "('p, 'v) helpers \<Rightarrow> output_file \<Rightarrow> error + string option" where
  "extract_path h output_file =
     (case output_file of
        Str s \<Rightarrow> Inr (Some s)
      | Dict d \<Rightarrow>
          (let path = map_of d ''path'' in
           if \<not> is_blank h path then
             (case path of
                None \<Rightarrow> Inl AttributeError
              | Some p \<Rightarrow> Inr (Some (py_strip p)))
           else Inr None)
      | Other \<Rightarrow> Inr None)"

text \<open>The comprehension \<open>[_extract_path(f) for f in config.output_files if predicate(f)]\<close>.\<close>

fun extract_paths ::
  "('p, 'v) helpers \<Rightarrow> (output_file \<Rightarrow> bool) \<Rightarrow> output_file list \<Rightarrow> error + string option list"
where
  "extract_paths h predicate [] = Inr []"
| "extract_paths h predicate (f # fs) =
     (if predicate f then
        (case extract_path h f of
           Inl e \<Rightarrow> Inl e
         | Inr p \<Rightarrow>
             (case extract_paths h predicate fs of
                Inl e \<Rightarrow> Inl e
              | Inr ps \<Rightarrow> Inr (p # ps)))
      else extract_paths h predicate fs)"

definition substitute_parameter_values ::
  "('p, 'v) helpers \<Rightarrow> 'p \<Rightarrow> string list \<Rightarrow> 'v \<Rightarrow> string list"
where
  "substitute_parameter_values h parameter_configs output_files' vals =
     map (\<lambda>output_file. fill_parameter_values h parameter_configs output_file vals) output_files'"

text \<open>
  \<open>_get_paths\<close>; \<open>parameter_values\<close> is what
  \<open>execution_service.get_user_parameter_values(execution_id)\<close> returns. The filter
  \<open>[p for p in paths if p]\<close> drops \<open>None\<close> and the empty string.
\<close>

definition get_paths ::
  "('p, 'v) helpers \<Rightarrow> 'p config \<Rightarrow> 'v \<Rightarrow> (output_file \<Rightarrow> bool) \<Rightarrow> error + string list"
where
  "get_paths h config parameter_values predicate =
     (if is_empty h (output_files config) then Inr []
      else
        (case extract_paths h predicate (output_files config) of
           Inl e \<Rightarrow> Inl e
         | Inr paths \<Rightarrow>
             Inr (substitute_parameter_values h (parameters config)
                    [p. Some p \<leftarrow> paths, p \<noteq> []] parameter_values)))"

subsection \<open>Describing the declared paths\<close>

text \<open>
  The reading of \<open>is_blank\<close> that the claims about \<open>_extract_path\<close> take: a value is
  blank when it is missing, empty, or made of whitespace only.
\<close>

definition blank :: "string option \<Rightarrow> bool" where
  "blank path = (case path of None \<Rightarrow> True | Some s \<Rightarrow> \<forall>c\<in>set s. py_isspace c)"

text \<open>
  The path an entry declares, if any: a non-empty string itself; the stripped \<open>path\<close> of
  a dict, unless that is blank; nothing for any other entry.
\<close>

definition declared_path :: "output_file \<Rightarrow> string option" where
  "declared_path file =
     (case file of
        Str s \<Rightarrow> if s = [] then None else Some s
      | Dict d \<Rightarrow>
          (case map_of d ''path'' of
             None \<Rightarrow> None
           | Some p \<Rightarrow> if blank (Some p) then None else Some (py_strip p))
      | Other \<Rightarrow> None)"

section \<open>A host to run the examples on\<close>

text \<open>
  The theorems below hold for every environment. Their examples run on this one: a
  POSIX host whose world is a list of regular files, a list of directories, the files
  that cannot be read, and what the listeners were told.
\<close>

record world =
  regular_files :: "string list"
  directories :: "string list"
  unreadable :: "string list"
  notified :: "(string \<times> string \<times> string) list"

text \<open>
  The groups of a match of the expanded macro with the separator \<open>/\<close>, from its text:
  group 1 is the last segment, group 2 the last unit, group 3 the escaped space when one
  was matched.
\<close>

definition posix_match :: "string \<Rightarrow> match" where
  "posix_match g =
     [Some g,
      Some (CHR ''/'' # rev (takeWhile (\<lambda>c. c \<noteq> CHR ''/'') (rev g))),
      Some (if last g = CHR '' '' then [backslash, CHR '' ''] else [last g]),
      (if CHR '' '' \<in> set g then Some [backslash, CHR '' ''] else None)]"

text \<open>
  What \<open>re.finditer\<close> answers on the regular expressions and texts of the examples:
  each match with its groups, group 0 first.
\<close>

definition re_examples :: "string \<Rightarrow> string \<Rightarrow> error + match list" where
  "re_examples pattern text =
     (if pattern = ''any_path'' \<and> text = ''see /tmp/img.png here'' then Inr []
      else if pattern = ''~?'' @ any_path_regex ''/'' then
        Inr (map posix_match (py_finditer (anchored_any_path_rx True False CHR ''/'') text))
      else if pattern = ''(foo)-(bar)'' \<and> text = ''foo-bar'' then
        Inr [[Some ''foo-bar'', Some ''foo'', Some ''bar'']]
      else if pattern = ''[a-z]+[.]txt'' \<and> text = ''made a.txt and b.txt'' then
        Inr [[Some ''a.txt''], [Some ''b.txt'']]
      else if pattern = ''saved ('' @ any_path_regex ''/'' @ '')''
          \<and> text = ''saved /tmp/img.png ok'' then
        Inr [[Some ''saved /tmp/img.png'', Some ''/tmp/img.png'', Some ''/img.png'', Some ''g'',
              None]]
      else if pattern = any_path_regex ''/'' then
        Inr (map posix_match (py_finditer (anchored_any_path_rx False False CHR ''/'') text))
      else Inl (OtherError ''no answer recorded''))"

definition example_env :: "world env" where
  "example_env =
     \<lparr>path_sep = ''/'',
      re_escape = (\<lambda>s. s),
      is_linux = True,
      is_mac = False,
      is_win = False,
      re_finditer = re_examples,
      search_glob = (\<lambda>w p recursive.
        if p = ''/srv/*.log'' then filter (\<lambda>f. f \<in> set (regular_files w)) [''/srv/a.log'', ''/srv/b.log'']
        else []),
      normalize_path = (\<lambda>p wd. if startswith p ''/'' then p else wd @ ''/'' @ p),
      path_exists = (\<lambda>w p. p \<in> set (regular_files w) \<or> p \<in> set (directories w)),
      path_isdir = (\<lambda>w p. p \<in> set (directories w)),
      path_join = (\<lambda>a b. a @ ''/'' @ b),
      path_basename = (\<lambda>p. rev (takeWhile (\<lambda>c. c \<noteq> CHR ''/'') (rev p))),
      create_unique_filename = (\<lambda>w p.
        if p \<notin> set (regular_files w) then Inr p
        else if p @ ''_1'' \<notin> set (regular_files w) then Inr (p @ ''_1'')
        else Inl FileExistsException),
      copyfile = (\<lambda>src dst w.
        if src \<in> set (unreadable w) then (Some (OtherError ''PermissionError''), w)
        else (None, w\<lparr>regular_files := regular_files w @ [dst]\<rparr>))\<rparr>"

definition example_world :: world where
  "example_world =
     \<lparr>regular_files =
        [''/tmp/img.png'', ''/srv/a.log'', ''/srv/b.log'', ''/data/locked.bin'', ''/work/out.txt''],
      directories = [''/tmp'', ''/srv'', ''/data'', ''/downloads'', ''/work''],
      unreadable = [''/data/locked.bin''],
      notified = []\<rparr>"

text \<open>Two listeners: one records what it is told, one records it and then raises.\<close>

definition recording_listener :: "string \<Rightarrow> world listener" where
  "recording_listener name original_path download_path w =
     (None, w\<lparr>notified := notified w @ [(name, original_path, download_path)]\<rparr>)"

definition raising_listener :: "string \<Rightarrow> world listener" where
  "raising_listener name original_path download_path w =
     (Some (OtherError ''listener failed''),
      w\<lparr>notified := notified w @ [(name, original_path, download_path)]\<rparr>)"

definition example_state :: "world state" where
  "example_state =
     \<lparr>download_folder = ''/downloads'',
      prepared_files = Map.empty,
      result_files = [],
      inline_images = Map.empty,
      inline_image_listeners = [raising_listener ''first'', recording_listener ''second''],
      world = example_world,
      log = []\<rparr>"

text \<open>Helpers and a configuration for the examples of \<open>_get_paths\<close>.\<close>

definition example_helpers :: "(unit, string) helpers" where
  "example_helpers =
     \<lparr>is_blank = blank,
      is_empty = (\<lambda>files. files = []),
      fill_parameter_values = (\<lambda>parameter_configs output_file vals.
        str_replace output_file ''${user}'' vals)\<rparr>"

definition example_config :: "unit config" where
  "example_config =
     \<lparr>output_files =
        [Str ''/home/${user}/out.txt'', Other, Dict [(''path'', ''  /var/log/run.log  '')],
         Dict [(''path'', ''   '')], Dict [(''type'', ''inline-image'')], Str [],
         Dict [(''path'', '' /tmp/img.png''), (''type'', ''inline-image'')]],
      parameters = (),
      working_directory = ''/work''\<rparr>"

text \<open>
  A \<open>prepare_images\<close> for the examples that only records the text of each pass it is
  asked for.
\<close>

definition recording_prepare :: "string \<Rightarrow> string list \<Rightarrow> (error option \<times> string list) option" where
  "recording_prepare output passes = Some (None, passes @ [output])"

text \<open>The example state once \<open>/tmp/img.png\<close> has been staged.\<close>

definition example_staged_state :: "world state" where
  "example_staged_state =
     example_state
       \<lparr>prepared_files := [''/tmp/img.png'' \<mapsto> ''/downloads/img.png''],
        world := example_world
          \<lparr>regular_files := regular_files example_world @ [''/downloads/img.png'']\<rparr>\<rparr>"

text \<open>
  A host on which no unique name can be made for \<open>img.png\<close> in the download folder.
\<close>

definition crowded_env :: "world env" where
  "crowded_env =
     example_env
       \<lparr>create_unique_filename := (\<lambda>w p.
          if p = ''/downloads/img.png'' then Inl FileExistsException
          else create_unique_filename example_env w p)\<rparr>"

section \<open>Properties of the matcher\<close>

lemma find_closing_Some:
  assumes "find_closing s r = Some e" and "r = Some i" and "i < length s" and "s ! i = CHR ''#''"
  shows "i \<le> e \<and> e < length s \<and> s ! e = CHR ''#'' \<and> \<not> startswith (drop e s) ''#any_path''
    \<and> (\<forall>j. i \<le> j \<and> j < e \<and> s ! j = CHR ''#'' \<longrightarrow> startswith (drop j s) ''#any_path'')"
  using assms
proof (induction s r arbitrary: i rule: find_closing.induct)
  case (1 s r)
  show ?case
  proof (cases "startswith (drop i s) ''#any_path''")
    case False
    with "1.prems" have "e = i"
      by (simp add: find_closing.simps)
    with False "1.prems" show ?thesis by auto
  next
    case True
    with "1.prems" have rec: "find_closing s (py_find s CHR ''#'' (i + 1)) = Some e"
      by (simp add: find_closing.simps)
    then obtain i' where i': "py_find s CHR ''#'' (i + 1) = Some i'"
      by (cases "py_find s CHR ''#'' (i + 1)") (simp_all add: find_closing.simps)
    from py_find_Some [OF i']
    have b: "i + 1 \<le> i'" "i' < length s" "s ! i' = CHR ''#''"
      and gap: "\<forall>j. i + 1 \<le> j \<and> j < i' \<longrightarrow> s ! j \<noteq> CHR ''#''"
      by auto
    from "1.IH" [OF "1.prems"(2) True rec i' b(2) b(3)]
    have ih: "i' \<le> e" "e < length s" "s ! e = CHR ''#''" "\<not> startswith (drop e s) ''#any_path''"
      and ihj: "\<forall>j. i' \<le> j \<and> j < e \<and> s ! j = CHR ''#'' \<longrightarrow> startswith (drop j s) ''#any_path''"
      by auto
    have "startswith (drop j s) ''#any_path''" if "i \<le> j" "j < e" "s ! j = CHR ''#''" for j
    proof (cases "j = i")
      case True
      with \<open>startswith (drop i s) ''#any_path''\<close> show ?thesis by simp
    next
      case False
      with that have "i + 1 \<le> j" by arith
      with that gap have "i' \<le> j"
        by (meson not_le_imp_less)
      with that ihj show ?thesis by blast
    qed
    with ih b show ?thesis by auto
  qed
qed

lemma find_closing_None:
  assumes "find_closing s r = None" and "r = Some i" and "i < length s" and "s ! i = CHR ''#''"
  shows "\<forall>j. i \<le> j \<and> j < length s \<and> s ! j = CHR ''#'' \<longrightarrow> startswith (drop j s) ''#any_path''"
  using assms
proof (induction s r arbitrary: i rule: find_closing.induct)
  case (1 s r)
  from "1.prems" have True: "startswith (drop i s) ''#any_path''"
    by (auto simp: find_closing.simps split: if_splits)
  with "1.prems" have rec: "find_closing s (py_find s CHR ''#'' (i + 1)) = None"
    by (simp add: find_closing.simps)
  show ?case
  proof (cases "py_find s CHR ''#'' (i + 1)")
    case None
    then have no: "CHR ''#'' \<notin> set (drop (i + 1) s)"
      by (simp add: py_find_None)
    have "j = i" if "i \<le> j" "j < length s" "s ! j = CHR ''#''" for j
    proof (rule ccontr)
      assume "j \<noteq> i"
      with that have "i + 1 \<le> j" by arith
      with that have "j - (i + 1) < length (drop (i + 1) s)"
        and "drop (i + 1) s ! (j - (i + 1)) = s ! j"
        by simp_all
      then have "s ! j \<in> set (drop (i + 1) s)"
        by (metis nth_mem)
      with no that show False by simp
    qed
    with True show ?thesis by blast
  next
    case (Some i')
    from py_find_Some [OF Some]
    have b: "i + 1 \<le> i'" "i' < length s" "s ! i' = CHR ''#''"
      and gap: "\<forall>j. i + 1 \<le> j \<and> j < i' \<longrightarrow> s ! j \<noteq> CHR ''#''"
      by auto
    from "1.IH" [OF "1.prems"(2) True rec Some b(2) b(3)]
    have ihj: "\<forall>j. i' \<le> j \<and> j < length s \<and> s ! j = CHR ''#'' \<longrightarrow> startswith (drop j s) ''#any_path''" .
    have "startswith (drop j s) ''#any_path''" if "i \<le> j" "j < length s" "s ! j = CHR ''#''" for j
    proof (cases "j = i")
      case True
      with \<open>startswith (drop i s) ''#any_path''\<close> show ?thesis by simp
    next
      case False
      with that have "i + 1 \<le> j" by arith
      with that gap have "i' \<le> j"
        by (meson not_le_imp_less)
      with that ihj show ?thesis by blast
    qed
    then show ?thesis by blast
  qed
qed

lemma find_char_first: "c \<notin> set pre \<Longrightarrow> find_char c (pre @ c # r) = Some (length pre)"
  by (induction pre) auto

lemma py_find_first: "c \<notin> set pre \<Longrightarrow> py_find (pre @ c # r) c 0 = Some (length pre)"
  by (simp add: py_find_def find_char_first)

lemma py_find_here: "py_find (pfx @ c # r) c (length pfx) = Some (length pfx)"
  by (simp add: py_find_def)

lemma py_find_skip: "x \<noteq> c \<Longrightarrow> py_find (pfx @ x # r) c (length pfx) = py_find ((pfx @ [x]) @ r) c (length (pfx @ [x]))"
  by (simp add: py_find_def option.map_comp comp_def)

lemma startswith_append: "startswith s p \<Longrightarrow> startswith (s @ r) p"
  by (simp add: startswith_def prefix_def) (metis append.assoc)

lemma find_closing_body:
  assumes "any_path_markers_only body" and "\<not> startswith post ''any_path''"
  shows "find_closing (pfx @ body @ CHR ''#'' # post)
           (py_find (pfx @ body @ CHR ''#'' # post) CHR ''#'' (length pfx))
         = Some (length pfx + length body)"
  using assms
proof (induction body arbitrary: pfx)
  case Nil
  then show ?case
    by (simp add: py_find_here find_closing.simps startswith_def)
next
  case (Cons c cs)
  let ?s = "pfx @ (c # cs) @ CHR ''#'' # post"
  have s: "?s = (pfx @ [c]) @ cs @ CHR ''#'' # post" by simp
  from Cons.prems have ok: "any_path_markers_only cs" by simp
  note ih = Cons.IH [OF ok Cons.prems(2), of "pfx @ [c]"]
  show ?case
  proof (cases "c = CHR ''#''")
    case False
    then have "py_find ?s CHR ''#'' (length pfx) = py_find ?s CHR ''#'' (length (pfx @ [c]))"
      using py_find_skip [of c "CHR ''#''" pfx "cs @ CHR ''#'' # post"] by simp
    with ih show ?thesis by simp
  next
    case True
    with Cons.prems have "startswith (c # cs) ''#any_path''" by simp
    then have "startswith ((c # cs) @ CHR ''#'' # post) ''#any_path''"
      by (rule startswith_append)
    then have sw: "startswith (drop (length pfx) ?s) ''#any_path''" by simp
    have here: "py_find ?s CHR ''#'' (length pfx) = Some (length pfx)"
      using True py_find_here [of pfx "CHR ''#''" "cs @ CHR ''#'' # post"] by simp
    have "find_closing ?s (Some (length pfx)) = find_closing ?s (py_find ?s CHR ''#'' (length pfx + 1))"
      using sw by (subst find_closing.simps) simp
    with here ih show ?thesis by simp
  qed
qed

lemma group_number_matches_prefixed:
  assumes "ds \<noteq> []" and "\<forall>c\<in>set ds. is_digit c"
  shows "group_number_matches (CHR ''#'' # ds @ CHR ''#'' # r) = [CHR ''#'' # ds @ ''#'']"
proof -
  have "\<not> is_digit CHR ''#''" by (simp add: is_digit_def)
  with assms have "takeWhile is_digit (ds @ CHR ''#'' # r) = ds"
    by (simp add: takeWhile_append2)
  with assms show ?thesis
    by (simp add: group_number_matches_def startswith_def)
qed

lemma find_directive_prefixed:
  assumes "CHR ''#'' \<notin> set pre" and "ds \<noteq> []" and "\<forall>c\<in>set ds. is_digit c"
    and "any_path_markers_only body" and "\<not> startswith post ''any_path''"
  shows "find_directive (pre @ ''#'' @ ds @ ''#'' @ body @ ''#'' @ post) =
    Some \<lparr>group_number = int_of_digits ds, regex_start = length pre,
          pattern_start = length pre + length ds + 1,
          regex_end = length pre + length ds + 2 + length body\<rparr>"
proof -
  let ?p = "pre @ ''#'' @ ds @ ''#'' @ body @ ''#'' @ post"
  have first: "py_find ?p CHR ''#'' 0 = Some (length pre)"
    using py_find_first [OF assms(1), of "ds @ ''#'' @ body @ ''#'' @ post"] by simp
  have gm: "group_number_matches (drop (length pre) ?p) = [CHR ''#'' # ds @ ''#'']"
    using group_number_matches_prefixed [OF assms(2,3), of "body @ ''#'' @ post"] by simp
  have close: "find_closing ?p (py_find ?p CHR ''#'' (length pre + length ds + 1 + 1))
      = Some (length pre + length ds + 2 + length body)"
    using find_closing_body [OF assms(4,5), of "pre @ ''#'' @ ds @ ''#''"] by simp
  have sl: "slice (CHR ''#'' # ds @ ''#'') 1 (length (CHR ''#'' # ds @ ''#'') - 1) = ds"
    by (simp add: slice_def)
  show ?thesis
    unfolding find_directive_def
    using first gm close sl by simp
qed

lemma find_directive_plain:
  assumes "CHR ''#'' \<notin> set pre" and "group_number_matches (''#'' @ body @ ''#'' @ post) = []"
    and "any_path_markers_only body" and "\<not> startswith post ''any_path''"
  shows "find_directive (pre @ ''#'' @ body @ ''#'' @ post) =
    Some \<lparr>group_number = 0, regex_start = length pre, pattern_start = length pre,
          regex_end = length pre + 1 + length body\<rparr>"
proof -
  let ?p = "pre @ ''#'' @ body @ ''#'' @ post"
  have first: "py_find ?p CHR ''#'' 0 = Some (length pre)"
    using py_find_first [OF assms(1), of "body @ ''#'' @ post"] by simp
  have gm: "group_number_matches (drop (length pre) ?p) = []"
    using assms(2) by simp
  have close: "find_closing ?p (py_find ?p CHR ''#'' (length pre + 1))
      = Some (length pre + 1 + length body)"
    using find_closing_body [OF assms(3,4), of "pre @ ''#''"] by simp
  show ?thesis
    unfolding find_directive_def
    using first gm close by simp
qed

lemma find_directive_no_marker: "CHR ''#'' \<notin> set p \<Longrightarrow> find_directive p = None"
  by (simp add: find_directive_def)

lemma find_directive_Some:
  assumes "find_directive p = Some d"
  shows "regex_start d < length p \<and> p ! regex_start d = CHR ''#''
    \<and> CHR ''#'' \<notin> set (take (regex_start d) p)
    \<and> regex_start d \<le> pattern_start d \<and> pattern_start d < regex_end d
    \<and> regex_end d < length p \<and> p ! regex_end d = CHR ''#''
    \<and> \<not> startswith (drop (regex_end d) p) ''#any_path''"
proof -
  from assms obtain rs where rs: "py_find p CHR ''#'' 0 = Some rs"
    by (auto simp: find_directive_def split: if_splits option.splits)
  obtain gn ps where gp: "(case group_number_matches (drop rs p) of
        first_match # _ \<Rightarrow>
          (int_of_digits (slice first_match 1 (length first_match - 1)),
           rs + length first_match - 1)
      | [] \<Rightarrow> (0, rs)) = (gn, ps)"
    by (cases "case group_number_matches (drop rs p) of
        first_match # _ \<Rightarrow>
          (int_of_digits (slice first_match 1 (length first_match - 1)),
           rs + length first_match - 1)
      | [] \<Rightarrow> (0, rs)") auto
  from assms rs gp obtain e where e: "find_closing p (py_find p CHR ''#'' (ps + 1)) = Some e"
    and d: "d = \<lparr>group_number = gn, regex_start = rs, pattern_start = ps, regex_end = e\<rparr>"
    by (auto simp: find_directive_def split: if_splits option.splits)
  from e obtain i where i: "py_find p CHR ''#'' (ps + 1) = Some i"
    by (cases "py_find p CHR ''#'' (ps + 1)") (simp_all add: find_closing.simps)
  from py_find_Some [OF i] have ib: "ps + 1 \<le> i" "i < length p" "p ! i = CHR ''#''"
    by auto
  from find_closing_Some [OF e i ib(2,3)]
  have eb: "i \<le> e" "e < length p" "p ! e = CHR ''#''" "\<not> startswith (drop e p) ''#any_path''"
    by auto
  from py_find_Some [OF rs] have rb: "rs < length p" "p ! rs = CHR ''#''"
    and before: "\<forall>j<rs. p ! j \<noteq> CHR ''#''"
    by auto
  from before rb have nb: "CHR ''#'' \<notin> set (take rs p)"
    by (auto simp: in_set_conv_nth)
  from gp have "rs \<le> ps"
    by (auto simp: group_number_matches_def Let_def split: list.splits if_splits)
  with d ib eb rb nb show ?thesis by simp
qed

lemma new_output_patterns_map:
  "map (\<lambda>m. match_group m (group_number d)) ms = map (\<lambda>g. Inr (Some g)) gs \<Longrightarrow>
   new_output_patterns p d ms =
     Inr (map (\<lambda>g. take (regex_start d) p @ g @ drop (regex_end d + 1) p) gs)"
proof (induction ms arbitrary: gs)
  case Nil
  then show ?case by simp
next
  case (Cons m ms)
  then obtain g gs' where gs: "gs = g # gs'" by (cases gs) auto
  with Cons.prems have "match_group m (group_number d) = Inr (Some g)"
    and "map (\<lambda>m. match_group m (group_number d)) ms = map (\<lambda>g. Inr (Some g)) gs'"
    by simp_all
  with Cons.IH [of gs'] gs show ?case
    by (simp add: replace_span_def)
qed

lemma loop_directive_step:
  assumes "find_directive p = Some d"
    and "re_finditer env (regex_pattern_of env p d) out = Inr ms"
    and "new_output_patterns p d ms = Inr new"
  shows "find_matching_files_loop env w out (p # rest) files =
         find_matching_files_loop env w out (rest @ new) files"
  using assms by (subst find_matching_files_loop.simps) simp

lemma loop_plain_step:
  assumes "find_directive p = None"
  shows "find_matching_files_loop env w out (p # rest) files =
         find_matching_files_loop env w out rest
           (files @ (if CHR ''*'' \<notin> set p then [p] else search_glob env w p (contains p ''**'')))"
  using assms by (subst find_matching_files_loop.simps) simp

lemma loop_literals:
  assumes "\<forall>p\<in>set ps. CHR ''#'' \<notin> set p \<and> CHR ''*'' \<notin> set p"
  shows "find_matching_files_loop env w out ps files = Some (Inr (files @ ps))"
  using assms
proof (induction ps arbitrary: files)
  case Nil
  show ?case by (subst find_matching_files_loop.simps) simp
next
  case (Cons p ps)
  then have "find_directive p = None" "CHR ''*'' \<notin> set p"
    by (simp_all add: find_directive_no_marker)
  with Cons.IH [of "files @ [p]"] Cons.prems show ?case
    by (simp add: loop_plain_step)
qed

lemma scan_closing_Some:
  assumes "find_closing s (py_find s CHR ''#'' k) = Some e"
  shows "k \<le> e \<and> e < length s \<and> s ! e = CHR ''#'' \<and> \<not> startswith (drop e s) ''#any_path''
    \<and> (\<forall>j. k \<le> j \<and> j < e \<and> s ! j = CHR ''#'' \<longrightarrow> startswith (drop j s) ''#any_path'')"
proof -
  from assms obtain i where i: "py_find s CHR ''#'' k = Some i"
    by (cases "py_find s CHR ''#'' k") (simp_all add: find_closing.simps)
  from py_find_Some [OF i] have ib: "k \<le> i" "i < length s" "s ! i = CHR ''#''"
    and gap: "\<forall>j. k \<le> j \<and> j < i \<longrightarrow> s ! j \<noteq> CHR ''#''"
    by auto
  from assms i have "find_closing s (Some i) = Some e" by simp
  from find_closing_Some [OF this refl ib(2,3)]
  have eb: "i \<le> e" "e < length s" "s ! e = CHR ''#''" "\<not> startswith (drop e s) ''#any_path''"
    and skipped: "\<forall>j. i \<le> j \<and> j < e \<and> s ! j = CHR ''#'' \<longrightarrow> startswith (drop j s) ''#any_path''"
    by auto
  have "startswith (drop j s) ''#any_path''" if "k \<le> j" "j < e" "s ! j = CHR ''#''" for j
  proof -
    from that gap have "i \<le> j" by (meson not_le_imp_less)
    with that skipped show ?thesis by blast
  qed
  with ib eb show ?thesis by auto
qed

lemma scan_closing_None:
  assumes "find_closing s (py_find s CHR ''#'' k) = None"
  shows "\<forall>j. k \<le> j \<and> j < length s \<and> s ! j = CHR ''#'' \<longrightarrow> startswith (drop j s) ''#any_path''"
proof (cases "py_find s CHR ''#'' k")
  case None
  then have no: "CHR ''#'' \<notin> set (drop k s)" by (simp add: py_find_None)
  have False if "k \<le> j" "j < length s" "s ! j = CHR ''#''" for j
  proof -
    from that have "j - k < length (drop k s)" and "drop k s ! (j - k) = s ! j"
      by simp_all
    then have "s ! j \<in> set (drop k s)" by (metis nth_mem)
    with no that show False by simp
  qed
  then show ?thesis by blast
next
  case (Some i)
  from py_find_Some [OF Some] have ib: "k \<le> i" "i < length s" "s ! i = CHR ''#''"
    and gap: "\<forall>j. k \<le> j \<and> j < i \<longrightarrow> s ! j \<noteq> CHR ''#''"
    by auto
  from assms Some have "find_closing s (Some i) = None" by simp
  from find_closing_None [OF this refl ib(2,3)]
  have skipped: "\<forall>j. i \<le> j \<and> j < length s \<and> s ! j = CHR ''#'' \<longrightarrow> startswith (drop j s) ''#any_path''" .
  have "startswith (drop j s) ''#any_path''" if "k \<le> j" "j < length s" "s ! j = CHR ''#''" for j
  proof -
    from that gap have "i \<le> j" by (meson not_le_imp_less)
    with that skipped show ?thesis by blast
  qed
  then show ?thesis by blast
qed

text \<open>
  Claim C6. The scan for the closing marker of a directive, started at index \<open>k\<close> (the
  index after \<open>pattern_start\<close>), returns \<open>e\<close> exactly when \<open>e\<close> is the first index from \<open>k\<close>
  on that holds a \<open>#\<close> which does not start the token \<open>#any_path\<close>: every \<open>#\<close> before it
  starts \<open>#any_path\<close> and was skipped.
\<close>

theorem closing_marker_skips_any_path:
  "find_closing s (py_find s CHR ''#'' k) = Some e \<longleftrightarrow>
     (k \<le> e \<and> e < length s \<and> s ! e = CHR ''#'' \<and> \<not> startswith (drop e s) ''#any_path''
      \<and> (\<forall>j. k \<le> j \<and> j < e \<and> s ! j = CHR ''#'' \<longrightarrow> startswith (drop j s) ''#any_path''))"
  (is "?L \<longleftrightarrow> ?R")
proof
  assume ?L
  then show ?R by (rule scan_closing_Some)
next
  assume r: ?R
  show ?L
  proof (cases "find_closing s (py_find s CHR ''#'' k)")
    case None
    from scan_closing_None [OF None] r show ?thesis by blast
  next
    case (Some e')
    note p = scan_closing_Some [OF Some]
    have "\<not> e' < e"
    proof
      assume "e' < e"
      with r p show False by blast
    qed
    moreover have "\<not> e < e'"
    proof
      assume "e < e'"
      with r p show False by blast
    qed
    ultimately have "e' = e" by arith
    with Some show ?thesis by simp
  qed
qed

theorem closing_marker_skips_any_path_witness:
  "find_closing ''#a#any_path#x'' (py_find ''#a#any_path#x'' CHR ''#'' 1) = Some 11
   \<and> ''#a#any_path#x'' ! 2 = CHR ''#'' \<and> startswith (drop 2 ''#a#any_path#x'') ''#any_path''
   \<and> ''#a#any_path#x'' ! 11 = CHR ''#'' \<and> \<not> startswith (drop 11 ''#a#any_path#x'') ''#any_path''"
proof -
  have "find_closing ''#a#any_path#x'' (py_find ''#a#any_path#x'' CHR ''#'' 1) = Some 11"
    by (simp add: py_find_def find_closing.simps startswith_def)
  with closing_marker_skips_any_path [of "''#a#any_path#x''" 1 11]
  have "\<forall>j. 1 \<le> j \<and> j < 11 \<and> ''#a#any_path#x'' ! j = CHR ''#'' \<longrightarrow>
      startswith (drop j ''#a#any_path#x'') ''#any_path''"
    and "''#a#any_path#x'' ! 11 = CHR ''#''"
    and "\<not> startswith (drop 11 ''#a#any_path#x'') ''#any_path''"
    and "find_closing ''#a#any_path#x'' (py_find ''#a#any_path#x'' CHR ''#'' 1) = Some 11"
    by blast+
  moreover have "''#a#any_path#x'' ! 2 = CHR ''#''" by simp
  ultimately show ?thesis by (simp add: startswith_def)
qed

text \<open>
  Claim C7. A declaration \<open>pre # ds # body # post\<close> whose directive carries the group
  prefix \<open>ds\<close> (digits) has every match of its regex replaced by the text of capture
  group \<open>int(ds)\<close>, not by the whole match: the worklist receives \<open>pre @ g @ post\<close> for
  the text \<open>g\<close> of that group in each match. Without the prefix, \<open>pre # body # post\<close>,
  it is the text of group 0, the whole match.
\<close>

theorem group_index_selects_capture_group:
  assumes "CHR ''#'' \<notin> set pre"
    and "any_path_markers_only body"
    and "\<not> startswith post ''any_path''"
    and "re_finditer env (expand_regex env body (length pre)) script_output = Inr ms"
  shows
    "(ds \<noteq> [] \<and> (\<forall>c\<in>set ds. is_digit c)
        \<and> map (\<lambda>m. match_group m (int_of_digits ds)) ms = map (\<lambda>g. Inr (Some g)) gs
      \<longrightarrow> find_matching_files_loop env w script_output
            ((pre @ ''#'' @ ds @ ''#'' @ body @ ''#'' @ post) # rest) files
          = find_matching_files_loop env w script_output
              (rest @ map (\<lambda>g. pre @ g @ post) gs) files)
     \<and> (group_number_matches (''#'' @ body @ ''#'' @ post) = []
        \<and> map (\<lambda>m. match_group m 0) ms = map (\<lambda>g. Inr (Some g)) gs
      \<longrightarrow> find_matching_files_loop env w script_output
            ((pre @ ''#'' @ body @ ''#'' @ post) # rest) files
          = find_matching_files_loop env w script_output
              (rest @ map (\<lambda>g. pre @ g @ post) gs) files)"
proof (intro conjI impI)
  assume a: "ds \<noteq> [] \<and> (\<forall>c\<in>set ds. is_digit c)
    \<and> map (\<lambda>m. match_group m (int_of_digits ds)) ms = map (\<lambda>g. Inr (Some g)) gs"
  let ?p = "pre @ ''#'' @ ds @ ''#'' @ body @ ''#'' @ post"
  let ?d = "\<lparr>group_number = int_of_digits ds, regex_start = length pre,
          pattern_start = length pre + length ds + 1,
          regex_end = length pre + length ds + 2 + length body\<rparr>"
  from a assms have d: "find_directive ?p = Some ?d"
    using find_directive_prefixed [of pre ds body post] by blast
  have re: "regex_pattern_of env ?p ?d = expand_regex env body (length pre)"
    by (simp add: regex_pattern_of_def slice_def)
  have dr: "drop (regex_end ?d + 1) ?p = post"
    using append_eq_conv_conj [of "pre @ ''#'' @ ds @ ''#'' @ body @ ''#''" post ?p] by simp
  from a have "new_output_patterns ?p ?d ms
      = Inr (map (\<lambda>g. take (regex_start ?d) ?p @ g @ drop (regex_end ?d + 1) ?p) gs)"
    by (intro new_output_patterns_map) simp
  then have new: "new_output_patterns ?p ?d ms = Inr (map (\<lambda>g. pre @ g @ post) gs)"
    by (simp only: dr) simp
  from loop_directive_step [OF d _ new, of env script_output w rest files] re assms(4)
  show "find_matching_files_loop env w script_output (?p # rest) files
      = find_matching_files_loop env w script_output (rest @ map (\<lambda>g. pre @ g @ post) gs) files"
    by simp
next
  assume a: "group_number_matches (''#'' @ body @ ''#'' @ post) = []
    \<and> map (\<lambda>m. match_group m 0) ms = map (\<lambda>g. Inr (Some g)) gs"
  let ?p = "pre @ ''#'' @ body @ ''#'' @ post"
  let ?d = "\<lparr>group_number = 0, regex_start = length pre, pattern_start = length pre,
          regex_end = length pre + 1 + length body\<rparr>"
  from a assms have d: "find_directive ?p = Some ?d"
    using find_directive_plain [of pre body post] by blast
  have re: "regex_pattern_of env ?p ?d = expand_regex env body (length pre)"
    by (simp add: regex_pattern_of_def slice_def)
  have dr: "drop (regex_end ?d + 1) ?p = post"
    using append_eq_conv_conj [of "pre @ ''#'' @ body @ ''#''" post ?p] by simp
  from a have "new_output_patterns ?p ?d ms
      = Inr (map (\<lambda>g. take (regex_start ?d) ?p @ g @ drop (regex_end ?d + 1) ?p) gs)"
    by (intro new_output_patterns_map) simp
  then have new: "new_output_patterns ?p ?d ms = Inr (map (\<lambda>g. pre @ g @ post) gs)"
    by (simp only: dr) simp
  from loop_directive_step [OF d _ new, of env script_output w rest files] re assms(4)
  show "find_matching_files_loop env w script_output (?p # rest) files
      = find_matching_files_loop env w script_output (rest @ map (\<lambda>g. pre @ g @ post) gs) files"
    by simp
qed

lemma example_foo_bar:
  "re_finditer example_env (expand_regex example_env ''(foo)-(bar)'' (length ([] :: string))) ''foo-bar''
     = Inr [[Some ''foo-bar'', Some ''foo'', Some ''bar'']]"
  by (simp add: example_env_def expand_regex_def re_examples_def startswith_def)

theorem group_index_selects_capture_group_witness:
  "find_matching_files example_env example_world ''#1#(foo)-(bar)#'' ''foo-bar'' = Some (Inr [''foo''])
   \<and> find_matching_files example_env example_world ''#(foo)-(bar)#'' ''foo-bar''
       = Some (Inr [''foo-bar''])"
proof -
  have h1: "CHR ''#'' \<notin> set ([] :: string)" by simp
  have h2: "any_path_markers_only ''(foo)-(bar)''" by simp
  have h3: "\<not> startswith [] ''any_path''" by (simp add: startswith_def)
  note t = group_index_selects_capture_group [OF h1 h2 h3 example_foo_bar,
      where w = example_world and rest = "[]" and files = "[]"]
  have "find_matching_files_loop example_env example_world ''foo-bar'' [''#1#(foo)-(bar)#''] []
      = find_matching_files_loop example_env example_world ''foo-bar'' [''foo''] []"
    using t [where ds = "''1''" and gs = "[''foo'']"]
    by (simp add: is_digit_def match_group_def int_of_digits_def)
  moreover have "find_matching_files_loop example_env example_world ''foo-bar'' [''#(foo)-(bar)#''] []
      = find_matching_files_loop example_env example_world ''foo-bar'' [''foo-bar''] []"
    using t [where gs = "[''foo-bar'']" and ds = "''1''"]
    by (simp add: group_number_matches_def match_group_def is_digit_def)
  ultimately show ?thesis
    by (simp add: find_matching_files_def loop_literals)
qed

lemma str_replace_any_path_token: "str_replace ''#any_path'' ''#any_path'' new = new"
  by (simp add: startswith_def)

lemma str_replace_append:
  "CHR ''#'' \<notin> set pre \<Longrightarrow> str_replace (pre @ s) ''#any_path'' new = pre @ str_replace s ''#any_path'' new"
  by (induction pre) (auto simp: startswith_def)

lemma str_replace_token_first:
  "str_replace (''#any_path'' @ s) ''#any_path'' new = new @ str_replace s ''#any_path'' new"
  by (simp add: startswith_def)

lemma win_anchor_no_marker: "CHR ''#'' \<notin> set win_anchor"
  by (simp add: win_anchor_def backslash_def)

lemma platform_anchor_no_marker: "CHR ''#'' \<notin> set (platform_anchor env)"
  by (simp add: platform_anchor_def win_anchor_no_marker)

lemma markers_only_append:
  "CHR ''#'' \<notin> set a \<Longrightarrow> any_path_markers_only (a @ b) = any_path_markers_only b"
  by (induction a) auto

lemma markers_only_token:
  "any_path_markers_only (''#any_path'' @ b) = any_path_markers_only b"
  by (simp add: startswith_def)

lemma markers_only_join:
  "\<forall>seg\<in>set segs. CHR ''#'' \<notin> set seg \<Longrightarrow> any_path_markers_only (join_with ''#any_path'' segs)"
proof (induction "''#any_path''" segs rule: join_with.induct)
  case 1
  show ?case by simp
next
  case (2 x)
  then show ?case using markers_only_append [of x "[]"] by simp
next
  case (3 x y ys)
  then have "any_path_markers_only (join_with ''#any_path'' (y # ys))" by simp
  then have "any_path_markers_only (''#any_path'' @ join_with ''#any_path'' (y # ys))"
    by (simp only: markers_only_token)
  with 3 show ?case
    using markers_only_append [of x "''#any_path'' @ join_with ''#any_path'' (y # ys)"]
    by simp
qed

lemma str_replace_join:
  "\<forall>seg\<in>set segs. CHR ''#'' \<notin> set seg \<Longrightarrow>
   str_replace (join_with ''#any_path'' segs) ''#any_path'' new = join_with new segs"
proof (induction "''#any_path''" segs rule: join_with.induct)
  case 1
  show ?case by simp
next
  case (2 x)
  then show ?case using str_replace_append [of x "[]" new] by simp
next
  case (3 x y ys)
  then have ih: "str_replace (join_with ''#any_path'' (y # ys)) ''#any_path'' new
      = join_with new (y # ys)"
    by simp
  from 3 have "CHR ''#'' \<notin> set x" by simp
  then have "str_replace (x @ ''#any_path'' @ join_with ''#any_path'' (y # ys)) ''#any_path'' new
      = x @ str_replace (''#any_path'' @ join_with ''#any_path'' (y # ys)) ''#any_path'' new"
    by (rule str_replace_append)
  also have "\<dots> = x @ new @ str_replace (join_with ''#any_path'' (y # ys)) ''#any_path'' new"
    by (simp only: str_replace_token_first)
  finally show ?case using ih by simp
qed

lemma join_starts_with_token:
  assumes "\<forall>seg\<in>set segs. CHR ''#'' \<notin> set seg"
  shows "startswith (join_with ''#any_path'' segs) ''#any_path''
    = (case segs of [] # _ # _ \<Rightarrow> True | _ \<Rightarrow> False)"
proof (cases segs)
  case Nil
  then show ?thesis by (simp add: startswith_def)
next
  case (Cons x xs)
  note segs = Cons
  show ?thesis
  proof (cases x)
    case Nil
    show ?thesis
    proof (cases xs)
      case Nil
      with segs \<open>x = []\<close> show ?thesis by (simp add: startswith_def)
    next
      case (Cons y ys)
      with segs \<open>x = []\<close> show ?thesis by (simp add: startswith_def)
    qed
  next
    case (Cons c cs)
    with assms segs have ne: "c \<noteq> CHR ''#''" by auto
    have "join_with ''#any_path'' segs = c # (cs @ (case xs of [] \<Rightarrow> [] | _ \<Rightarrow> ''#any_path'' @ join_with ''#any_path'' xs))"
      using segs Cons by (cases xs) simp_all
    with ne segs Cons show ?thesis by (simp add: startswith_def)
  qed
qed

lemma expand_regex_join:
  assumes "\<forall>seg\<in>set segs. CHR ''#'' \<notin> set seg"
  shows "expand_regex env (join_with ''#any_path'' segs) (length pre)
    = directive_regex env (pre = []) segs"
proof -
  let ?body = "join_with ''#any_path'' segs"
  let ?new = "any_path_regex (re_escape env (path_sep env))"
  have r: "str_replace ?body ''#any_path'' ?new = join_with ?new segs"
    by (rule str_replace_join [OF assms])
  have ra: "str_replace (platform_anchor env @ ?body) ''#any_path'' ?new
      = platform_anchor env @ join_with ?new segs"
    using str_replace_append [OF platform_anchor_no_marker, of env ?body ?new] r by simp
  have a: "(if is_linux env \<or> is_mac env then ''~?'' @ rp
      else if is_win env then win_anchor @ rp else rp) = platform_anchor env @ rp" for rp
    by (simp add: platform_anchor_def)
  show ?thesis
  proof (cases "pre = [] \<and> (case segs of [] # _ # _ \<Rightarrow> True | _ \<Rightarrow> False)")
    case True
    then have c: "(startswith ?body ''#any_path'' \<and> length pre = 0) = True"
      using join_starts_with_token [OF assms] by simp
    from True have d: "(pre = [] \<and> (case segs of [] # _ # _ \<Rightarrow> True | _ \<Rightarrow> False)) = True"
      by simp
    show ?thesis
      unfolding expand_regex_def Let_def directive_regex_def
      by (simp only: c d a ra if_True)
  next
    case False
    then have c: "(startswith ?body ''#any_path'' \<and> length pre = 0) = False"
      using join_starts_with_token [OF assms] by auto
    from False have d: "(pre = [] \<and> (case segs of [] # _ # _ \<Rightarrow> True | _ \<Rightarrow> False)) = False"
      by simp
    show ?thesis
      unfolding expand_regex_def Let_def directive_regex_def
      by (simp only: c d r if_False append_Nil)
  qed
qed

lemma find_closing_unterminated:
  assumes "any_path_markers_only tail"
  shows "find_closing (pfx @ tail) (py_find (pfx @ tail) CHR ''#'' (length pfx)) = None"
  using assms
proof (induction tail arbitrary: pfx)
  case Nil
  have "py_find pfx CHR ''#'' (length pfx) = None"
    by (simp add: py_find_def)
  then show ?case by (simp add: find_closing.simps)
next
  case (Cons c cs)
  let ?s = "pfx @ c # cs"
  from Cons.prems have ok: "any_path_markers_only cs" by simp
  note ih = Cons.IH [OF ok, of "pfx @ [c]"]
  show ?case
  proof (cases "c = CHR ''#''")
    case False
    then have "py_find ?s CHR ''#'' (length pfx) = py_find ?s CHR ''#'' (length (pfx @ [c]))"
      using py_find_skip [of c "CHR ''#''" pfx cs] by simp
    with ih show ?thesis by simp
  next
    case True
    with Cons.prems have "startswith (c # cs) ''#any_path''" by simp
    then have sw: "startswith (drop (length pfx) ?s) ''#any_path''" by simp
    have here: "py_find ?s CHR ''#'' (length pfx) = Some (length pfx)"
      using True py_find_here [of pfx "CHR ''#''" cs] by simp
    have "find_closing ?s (Some (length pfx)) = find_closing ?s (py_find ?s CHR ''#'' (length pfx + 1))"
      using sw by (subst find_closing.simps) simp
    with here ih show ?thesis by simp
  qed
qed

lemma find_directive_unterminated:
  assumes "CHR ''#'' \<notin> set pre" and "any_path_markers_only tail"
  shows "group_number_matches (''#'' @ tail) = [] \<Longrightarrow> find_directive (pre @ ''#'' @ tail) = None"
    and "ds \<noteq> [] \<Longrightarrow> \<forall>c\<in>set ds. is_digit c \<Longrightarrow>
      find_directive (pre @ ''#'' @ ds @ ''#'' @ tail) = None"
proof -
  assume g: "group_number_matches (''#'' @ tail) = []"
  let ?p = "pre @ ''#'' @ tail"
  have first: "py_find ?p CHR ''#'' 0 = Some (length pre)"
    using py_find_first [OF assms(1), of tail] by simp
  have gm: "group_number_matches (drop (length pre) ?p) = []"
    using g by simp
  have close: "find_closing ?p (py_find ?p CHR ''#'' (length pre + 1)) = None"
    using find_closing_unterminated [OF assms(2), of "pre @ ''#''"] by simp
  show "find_directive ?p = None"
    unfolding find_directive_def using first gm close by simp
next
  assume d: "ds \<noteq> []" "\<forall>c\<in>set ds. is_digit c"
  let ?p = "pre @ ''#'' @ ds @ ''#'' @ tail"
  have first: "py_find ?p CHR ''#'' 0 = Some (length pre)"
    using py_find_first [OF assms(1), of "ds @ ''#'' @ tail"] by simp
  have gm: "group_number_matches (drop (length pre) ?p) = [CHR ''#'' # ds @ ''#'']"
    using group_number_matches_prefixed [OF d, of tail] by simp
  have close: "find_closing ?p (py_find ?p CHR ''#'' (length pre + length ds + 1 + 1)) = None"
    using find_closing_unterminated [OF assms(2), of "pre @ ''#'' @ ds @ ''#''"] by simp
  have sl: "slice (CHR ''#'' # ds @ ''#'') 1 (length (CHR ''#'' # ds @ ''#'') - 1) = ds"
    by (simp add: slice_def)
  show "find_directive ?p = None"
    unfolding find_directive_def using first gm close sl by simp
qed

lemma loop_prefixed_directive:
  assumes "CHR ''#'' \<notin> set pre" and "\<forall>seg\<in>set segs. CHR ''#'' \<notin> set seg"
    and "\<not> startswith post ''any_path''"
    and "ds \<noteq> []" and "\<forall>c\<in>set ds. is_digit c"
    and "re_finditer env (directive_regex env (pre = []) segs) script_output = Inr ms"
    and "map (\<lambda>m. match_group m (int_of_digits ds)) ms = map (\<lambda>g. Inr (Some g)) gs"
  shows "find_matching_files_loop env w script_output
      ((pre @ ''#'' @ ds @ ''#'' @ join_with ''#any_path'' segs @ ''#'' @ post) # rest) files
    = find_matching_files_loop env w script_output
        (rest @ map (\<lambda>g. pre @ g @ post) gs) files"
proof -
  let ?body = "join_with ''#any_path'' segs"
  let ?p = "pre @ ''#'' @ ds @ ''#'' @ ?body @ ''#'' @ post"
  let ?d = "\<lparr>group_number = int_of_digits ds, regex_start = length pre,
          pattern_start = length pre + length ds + 1,
          regex_end = length pre + length ds + 2 + length ?body\<rparr>"
  from assms(1,3,4,5) markers_only_join [OF assms(2)] have d: "find_directive ?p = Some ?d"
    using find_directive_prefixed [of pre ds ?body post] by blast
  have re: "regex_pattern_of env ?p ?d = directive_regex env (pre = []) segs"
    using expand_regex_join [OF assms(2), of env pre] by (simp add: regex_pattern_of_def slice_def)
  have dr: "drop (regex_end ?d + 1) ?p = post"
    using append_eq_conv_conj [of "pre @ ''#'' @ ds @ ''#'' @ ?body @ ''#''" post ?p] by simp
  from assms(7) have "new_output_patterns ?p ?d ms
      = Inr (map (\<lambda>g. take (regex_start ?d) ?p @ g @ drop (regex_end ?d + 1) ?p) gs)"
    by (intro new_output_patterns_map) simp
  then have new: "new_output_patterns ?p ?d ms = Inr (map (\<lambda>g. pre @ g @ post) gs)"
    by (simp only: dr) simp
  from assms(6) re have f: "re_finditer env (regex_pattern_of env ?p ?d) script_output = Inr ms"
    by simp
  from loop_directive_step [OF d f new, of w rest files] show ?thesis .
qed

lemma loop_plain_directive:
  assumes "CHR ''#'' \<notin> set pre" and "\<forall>seg\<in>set segs. CHR ''#'' \<notin> set seg"
    and "\<not> startswith post ''any_path''"
    and "group_number_matches (''#'' @ join_with ''#any_path'' segs @ ''#'' @ post) = []"
    and "re_finditer env (directive_regex env (pre = []) segs) script_output = Inr ms"
    and "map (\<lambda>m. match_group m 0) ms = map (\<lambda>g. Inr (Some g)) gs"
  shows "find_matching_files_loop env w script_output
      ((pre @ ''#'' @ join_with ''#any_path'' segs @ ''#'' @ post) # rest) files
    = find_matching_files_loop env w script_output
        (rest @ map (\<lambda>g. pre @ g @ post) gs) files"
proof -
  let ?body = "join_with ''#any_path'' segs"
  let ?p = "pre @ ''#'' @ ?body @ ''#'' @ post"
  let ?d = "\<lparr>group_number = 0, regex_start = length pre, pattern_start = length pre,
          regex_end = length pre + 1 + length ?body\<rparr>"
  from assms(1,3,4) markers_only_join [OF assms(2)] have d: "find_directive ?p = Some ?d"
    using find_directive_plain [of pre ?body post] by blast
  have re: "regex_pattern_of env ?p ?d = directive_regex env (pre = []) segs"
    using expand_regex_join [OF assms(2), of env pre] by (simp add: regex_pattern_of_def slice_def)
  have dr: "drop (regex_end ?d + 1) ?p = post"
    using append_eq_conv_conj [of "pre @ ''#'' @ ?body @ ''#''" post ?p] by simp
  from assms(6) have "new_output_patterns ?p ?d ms
      = Inr (map (\<lambda>g. take (regex_start ?d) ?p @ g @ drop (regex_end ?d + 1) ?p) gs)"
    by (intro new_output_patterns_map) simp
  then have new: "new_output_patterns ?p ?d ms = Inr (map (\<lambda>g. pre @ g @ post) gs)"
    by (simp only: dr) simp
  from assms(5) re have f: "re_finditer env (regex_pattern_of env ?p ?d) script_output = Inr ms"
    by simp
  from loop_directive_step [OF d f new, of w rest files] show ?thesis .
qed

text \<open>
  Claim C1. One turn of the worklist loop on the declaration it pops. A declaration
  with a directive has the shape \<open>pre # body # post\<close>, or \<open>pre # ds # body # post\<close> with a
  group prefix of digits \<open>ds\<close>: \<open>pre\<close> holds no marker, the body is the pieces \<open>segs\<close>
  joined by the macro \<open>#any_path\<close>, and the closing marker does not start \<open>#any_path\<close>.
  The loop then searches the whole \<open>script_output\<close> for the body with every macro
  replaced by its expansion (and the anchor of the platform in front of a body that starts
  with the macro at the very start of the declaration), and appends to the worklist, for
  every match in order, the declaration with the span from the opening through the
  closing marker replaced by the text of the selected group: group \<open>int(ds)\<close>, or group 0
  without a prefix. A declaration without a directive (no marker at all, or no closing
  marker) is emitted as it is when it holds no \<open>*\<close>, and otherwise handed whole to
  \<open>search_glob\<close>, whose results are all emitted. The empty worklist returns what was
  emitted.
\<close>

theorem worklist_step:
  "(CHR ''#'' \<notin> set pre \<and> (\<forall>seg\<in>set segs. CHR ''#'' \<notin> set seg)
      \<and> \<not> startswith post ''any_path''
      \<and> ds \<noteq> [] \<and> (\<forall>c\<in>set ds. is_digit c)
      \<and> re_finditer env (directive_regex env (pre = []) segs) script_output = Inr ms
      \<and> map (\<lambda>m. match_group m (int_of_digits ds)) ms = map (\<lambda>g. Inr (Some g)) gs
    \<longrightarrow> find_matching_files_loop env w script_output
          ((pre @ ''#'' @ ds @ ''#'' @ join_with ''#any_path'' segs @ ''#'' @ post) # rest) files
        = find_matching_files_loop env w script_output
            (rest @ map (\<lambda>g. pre @ g @ post) gs) files)
   \<and> (CHR ''#'' \<notin> set pre \<and> (\<forall>seg\<in>set segs. CHR ''#'' \<notin> set seg)
      \<and> \<not> startswith post ''any_path''
      \<and> group_number_matches (''#'' @ join_with ''#any_path'' segs @ ''#'' @ post) = []
      \<and> re_finditer env (directive_regex env (pre = []) segs) script_output = Inr ms
      \<and> map (\<lambda>m. match_group m 0) ms = map (\<lambda>g. Inr (Some g)) gs
    \<longrightarrow> find_matching_files_loop env w script_output
          ((pre @ ''#'' @ join_with ''#any_path'' segs @ ''#'' @ post) # rest) files
        = find_matching_files_loop env w script_output
            (rest @ map (\<lambda>g. pre @ g @ post) gs) files)
   \<and> (find_directive p = None \<and> CHR ''*'' \<notin> set p
    \<longrightarrow> find_matching_files_loop env w script_output (p # rest) files
          = find_matching_files_loop env w script_output rest (files @ [p]))
   \<and> (find_directive p = None \<and> CHR ''*'' \<in> set p
    \<longrightarrow> find_matching_files_loop env w script_output (p # rest) files
          = find_matching_files_loop env w script_output rest
              (files @ search_glob env w p (contains p ''**'')))
   \<and> (CHR ''#'' \<notin> set p \<longrightarrow> find_directive p = None)
   \<and> (CHR ''#'' \<notin> set pre \<and> any_path_markers_only tail
      \<and> group_number_matches (''#'' @ tail) = []
    \<longrightarrow> find_directive (pre @ ''#'' @ tail) = None)
   \<and> (CHR ''#'' \<notin> set pre \<and> any_path_markers_only tail
      \<and> ds \<noteq> [] \<and> (\<forall>c\<in>set ds. is_digit c)
    \<longrightarrow> find_directive (pre @ ''#'' @ ds @ ''#'' @ tail) = None)
   \<and> find_matching_files_loop env w script_output [] files = Some (Inr files)"
proof (intro conjI impI)
  assume "CHR ''#'' \<notin> set pre \<and> (\<forall>seg\<in>set segs. CHR ''#'' \<notin> set seg)
      \<and> \<not> startswith post ''any_path''
      \<and> ds \<noteq> [] \<and> (\<forall>c\<in>set ds. is_digit c)
      \<and> re_finditer env (directive_regex env (pre = []) segs) script_output = Inr ms
      \<and> map (\<lambda>m. match_group m (int_of_digits ds)) ms = map (\<lambda>g. Inr (Some g)) gs"
  then show "find_matching_files_loop env w script_output
        ((pre @ ''#'' @ ds @ ''#'' @ join_with ''#any_path'' segs @ ''#'' @ post) # rest) files
      = find_matching_files_loop env w script_output (rest @ map (\<lambda>g. pre @ g @ post) gs) files"
    using loop_prefixed_directive [of pre segs post ds env script_output ms gs w rest files]
    by blast
next
  assume "CHR ''#'' \<notin> set pre \<and> (\<forall>seg\<in>set segs. CHR ''#'' \<notin> set seg)
      \<and> \<not> startswith post ''any_path''
      \<and> group_number_matches (''#'' @ join_with ''#any_path'' segs @ ''#'' @ post) = []
      \<and> re_finditer env (directive_regex env (pre = []) segs) script_output = Inr ms
      \<and> map (\<lambda>m. match_group m 0) ms = map (\<lambda>g. Inr (Some g)) gs"
  then show "find_matching_files_loop env w script_output
        ((pre @ ''#'' @ join_with ''#any_path'' segs @ ''#'' @ post) # rest) files
      = find_matching_files_loop env w script_output (rest @ map (\<lambda>g. pre @ g @ post) gs) files"
    using loop_plain_directive [of pre segs post env script_output ms gs w rest files]
    by blast
next
  assume "find_directive p = None \<and> CHR ''*'' \<notin> set p"
  then show "find_matching_files_loop env w script_output (p # rest) files
      = find_matching_files_loop env w script_output rest (files @ [p])"
    by (simp add: loop_plain_step)
next
  assume "find_directive p = None \<and> CHR ''*'' \<in> set p"
  then show "find_matching_files_loop env w script_output (p # rest) files
      = find_matching_files_loop env w script_output rest
          (files @ search_glob env w p (contains p ''**''))"
    by (simp add: loop_plain_step)
next
  assume "CHR ''#'' \<notin> set p"
  then show "find_directive p = None" by (rule find_directive_no_marker)
next
  assume "CHR ''#'' \<notin> set pre \<and> any_path_markers_only tail
      \<and> group_number_matches (''#'' @ tail) = []"
  then show "find_directive (pre @ ''#'' @ tail) = None"
    using find_directive_unterminated(1) [of pre tail] by blast
next
  assume "CHR ''#'' \<notin> set pre \<and> any_path_markers_only tail
      \<and> ds \<noteq> [] \<and> (\<forall>c\<in>set ds. is_digit c)"
  then show "find_directive (pre @ ''#'' @ ds @ ''#'' @ tail) = None"
    using find_directive_unterminated(2) [of pre tail ds] by blast
next
  show "find_matching_files_loop env w script_output [] files = Some (Inr files)"
    by (subst find_matching_files_loop.simps) simp
qed

lemma example_saved_regex:
  "re_finditer example_env (directive_regex example_env False [''saved ('', '')''])
     ''saved /tmp/img.png ok''
   = Inr [[Some ''saved /tmp/img.png'', Some ''/tmp/img.png'', Some ''/img.png'', Some ''g'', None]]"
  by (simp add: example_env_def directive_regex_def re_examples_def any_path_regex_def)

lemma example_txt_regex:
  "re_finditer example_env (directive_regex example_env False [''[a-z]+[.]txt''])
     ''made a.txt and b.txt''
   = Inr [[Some ''a.txt''], [Some ''b.txt'']]"
  by (simp add: example_env_def directive_regex_def re_examples_def any_path_regex_def)

theorem worklist_step_witness:
  "find_matching_files example_env example_world ''/backup#1#saved (#any_path)#.bak''
     ''saved /tmp/img.png ok''
     = Some (Inr [''/backup/tmp/img.png.bak''])
   \<and> find_matching_files example_env example_world ''/out/#[a-z]+[.]txt#'' ''made a.txt and b.txt''
     = Some (Inr [''/out/a.txt'', ''/out/b.txt''])
   \<and> find_matching_files example_env example_world ''/srv/*.log'' ''made a.txt and b.txt''
     = Some (Inr [''/srv/a.log'', ''/srv/b.log''])
   \<and> find_matching_files example_env example_world ''/tmp/#1#never closed'' []
     = Some (Inr [''/tmp/#1#never closed''])"
proof -
  note step = worklist_step [where env = example_env and w = example_world]
  have "find_matching_files_loop example_env example_world ''saved /tmp/img.png ok''
      [''/backup#1#saved (#any_path)#.bak''] []
      = find_matching_files_loop example_env example_world ''saved /tmp/img.png ok''
          [''/backup/tmp/img.png.bak''] []"
    using step [where pre = "''/backup''" and ds = "''1''" and segs = "[''saved ('', '')'']"
        and post = "''.bak''" and script_output = "''saved /tmp/img.png ok''"
        and ms = "[[Some ''saved /tmp/img.png'', Some ''/tmp/img.png'', Some ''/img.png'',
          Some ''g'', None]]"
        and gs = "[''/tmp/img.png'']" and rest = "[]" and files = "[]"]
      example_saved_regex
    by (simp add: startswith_def is_digit_def int_of_digits_def match_group_def)
  also have "\<dots> = find_matching_files_loop example_env example_world ''saved /tmp/img.png ok''
      [] [''/backup/tmp/img.png.bak'']"
    using step [where p = "''/backup/tmp/img.png.bak''" and rest = "[]" and files = "[]"
        and script_output = "''saved /tmp/img.png ok''"]
    by simp
  also have "\<dots> = Some (Inr [''/backup/tmp/img.png.bak''])"
    using step [where files = "[''/backup/tmp/img.png.bak'']"
        and script_output = "''saved /tmp/img.png ok''"]
    by simp
  finally have first: "find_matching_files example_env example_world
      ''/backup#1#saved (#any_path)#.bak'' ''saved /tmp/img.png ok''
      = Some (Inr [''/backup/tmp/img.png.bak''])"
    by (simp add: find_matching_files_def)
  let ?out = "''made a.txt and b.txt''"
  have "find_matching_files_loop example_env example_world ?out [''/out/#[a-z]+[.]txt#''] []
      = find_matching_files_loop example_env example_world ?out [''/out/a.txt'', ''/out/b.txt''] []"
    using step [where pre = "''/out/''" and segs = "[''[a-z]+[.]txt'']" and post = "[]"
        and script_output = ?out and ms = "[[Some ''a.txt''], [Some ''b.txt'']]"
        and gs = "[''a.txt'', ''b.txt'']" and rest = "[]" and files = "[]"]
      example_txt_regex
    by (simp add: startswith_def group_number_matches_def is_digit_def match_group_def)
  also have "\<dots> = find_matching_files_loop example_env example_world ?out [''/out/b.txt'']
      [''/out/a.txt'']"
    using step [where p = "''/out/a.txt''" and rest = "[''/out/b.txt'']" and files = "[]"
        and script_output = ?out]
    by simp
  also have "\<dots> = find_matching_files_loop example_env example_world ?out []
      [''/out/a.txt'', ''/out/b.txt'']"
    using step [where p = "''/out/b.txt''" and rest = "[]" and files = "[''/out/a.txt'']"
        and script_output = ?out]
    by simp
  also have "\<dots> = Some (Inr [''/out/a.txt'', ''/out/b.txt''])"
    using step [where files = "[''/out/a.txt'', ''/out/b.txt'']" and script_output = ?out]
    by simp
  finally have second: "find_matching_files example_env example_world ''/out/#[a-z]+[.]txt#'' ?out
      = Some (Inr [''/out/a.txt'', ''/out/b.txt''])"
    by (simp add: find_matching_files_def)
  have "find_matching_files_loop example_env example_world ?out [''/srv/*.log''] []
      = find_matching_files_loop example_env example_world ?out [] [''/srv/a.log'', ''/srv/b.log'']"
    using step [where p = "''/srv/*.log''" and rest = "[]" and files = "[]"
        and script_output = ?out]
    by (simp add: example_env_def example_world_def)
  also have "\<dots> = Some (Inr [''/srv/a.log'', ''/srv/b.log''])"
    using step [where files = "[''/srv/a.log'', ''/srv/b.log'']" and script_output = ?out]
    by simp
  finally have third: "find_matching_files example_env example_world ''/srv/*.log'' ?out
      = Some (Inr [''/srv/a.log'', ''/srv/b.log''])"
    by (simp add: find_matching_files_def)
  have none: "find_directive ''/tmp/#1#never closed'' = None"
    using step [where pre = "''/tmp/''" and ds = "''1''" and tail = "''never closed''"]
    by (simp add: is_digit_def)
  have "find_matching_files_loop example_env example_world [] [''/tmp/#1#never closed''] []
      = find_matching_files_loop example_env example_world [] [] [''/tmp/#1#never closed'']"
    using step [where p = "''/tmp/#1#never closed''" and rest = "[]" and files = "[]"
        and script_output = "[]"] none
    by simp
  also have "\<dots> = Some (Inr [''/tmp/#1#never closed''])"
    using step [where files = "[''/tmp/#1#never closed'']" and script_output = "[]"]
    by simp
  finally have fourth: "find_matching_files example_env example_world ''/tmp/#1#never closed'' []
      = Some (Inr [''/tmp/#1#never closed''])"
    by (simp add: find_matching_files_def)
  from first second third fourth show ?thesis by (intro conjI)
qed

















































section \<open>Properties of the line buffer\<close>

lemma py_rfind_last:
  assumes "c \<notin> set rest"
  shows "py_rfind (lines @ c # rest) c = Some (length lines)"
proof -
  have "rev (lines @ c # rest) = rev rest @ c # rev lines" by simp
  moreover from assms have "c \<notin> set (rev rest)" by simp
  ultimately have "find_char c (rev (lines @ c # rest)) = Some (length (rev rest))"
    using find_char_first [of c "rev rest" "rev lines"] by simp
  then show ?thesis by (simp add: py_rfind_def)
qed

text \<open>
  Claim C4. \<open>on_next\<close> puts the carried-over partial line before the chunk. Without a
  newline the whole is buffered and nothing is processed. Otherwise the text splits at
  its last newline into \<open>lines\<close> and \<open>rest\<close>: \<open>rest\<close> is carried forward, and \<open>lines\<close>,
  when not empty, is processed by one call of \<open>prepare\<close>. \<open>on_close\<close> does nothing on an
  empty buffer; otherwise it processes the buffer by one call of \<open>prepare\<close> and, when
  that returns, empties the buffer, so that closing again processes nothing.
\<close>

theorem line_buffering:
  "(CHR 0x0A \<notin> set (last_buffer self @ chunk)
      \<longrightarrow> on_next prepare self chunk st
            = Some (None, self\<lparr>last_buffer := last_buffer self @ chunk\<rparr>, st))
   \<and> (last_buffer self @ chunk = lines @ CHR 0x0A # rest \<and> CHR 0x0A \<notin> set rest
      \<longrightarrow> on_next prepare self chunk st
            = (if lines = [] then Some (None, self\<lparr>last_buffer := rest\<rparr>, st)
               else map_option (\<lambda>(r, st'). (r, self\<lparr>last_buffer := rest\<rparr>, st'))
                      (prepare lines st)))
   \<and> (last_buffer self = [] \<longrightarrow> on_close prepare self st = Some (None, self, st))
   \<and> (last_buffer self \<noteq> [] \<and> prepare (last_buffer self) st = Some (None, st')
      \<longrightarrow> on_close prepare self st = Some (None, self\<lparr>last_buffer := []\<rparr>, st')
          \<and> on_close prepare (self\<lparr>last_buffer := []\<rparr>) st'
              = Some (None, self\<lparr>last_buffer := []\<rparr>, st'))
   \<and> (last_buffer self \<noteq> [] \<and> prepare (last_buffer self) st = Some (Some e, st')
      \<longrightarrow> on_close prepare self st = Some (Some e, self, st'))"
proof (intro conjI impI)
  assume "CHR 0x0A \<notin> set (last_buffer self @ chunk)"
  then show "on_next prepare self chunk st
      = Some (None, self\<lparr>last_buffer := last_buffer self @ chunk\<rparr>, st)"
    by (simp add: on_next_def)
next
  assume a: "last_buffer self @ chunk = lines @ CHR 0x0A # rest \<and> CHR 0x0A \<notin> set rest"
  then have rf: "py_rfind (last_buffer self @ chunk) CHR 0x0A = Some (length lines)"
    using py_rfind_last [of "CHR 0x0A" rest lines] by simp
  from a have nl: "CHR 0x0A \<in> set (last_buffer self @ chunk)" by simp
  from a have tk: "take (length lines) (last_buffer self @ chunk) = lines"
    and dr: "drop (length lines + 1) (last_buffer self @ chunk) = rest"
    by simp_all
  show "on_next prepare self chunk st
      = (if lines = [] then Some (None, self\<lparr>last_buffer := rest\<rparr>, st)
         else map_option (\<lambda>(r, st'). (r, self\<lparr>last_buffer := rest\<rparr>, st'))
                (prepare lines st))"
  proof -
    have "on_next prepare self chunk st
        = (if take (length lines) (last_buffer self @ chunk) \<noteq> [] then
             (case prepare (take (length lines) (last_buffer self @ chunk)) st of
                None \<Rightarrow> None
              | Some (r, st') \<Rightarrow>
                  Some (r, self\<lparr>last_buffer := drop (length lines + 1) (last_buffer self @ chunk)\<rparr>, st'))
           else Some (None, self\<lparr>last_buffer := drop (length lines + 1) (last_buffer self @ chunk)\<rparr>, st))"
      unfolding on_next_def Let_def
      using nl rf by (simp del: take_append drop_append split: option.splits)
    then show ?thesis
      unfolding tk dr by (auto split: option.splits)
  qed
next
  assume "last_buffer self = []"
  then show "on_close prepare self st = Some (None, self, st)"
    by (simp add: on_close_def)
next
  assume "last_buffer self \<noteq> [] \<and> prepare (last_buffer self) st = Some (None, st')"
  then show "on_close prepare self st = Some (None, self\<lparr>last_buffer := []\<rparr>, st')"
    by (simp add: on_close_def)
next
  show "on_close prepare (self\<lparr>last_buffer := []\<rparr>) st'
      = Some (None, self\<lparr>last_buffer := []\<rparr>, st')"
    by (simp add: on_close_def)
next
  assume "last_buffer self \<noteq> [] \<and> prepare (last_buffer self) st = Some (Some e, st')"
  then show "on_close prepare self st = Some (Some e, self, st')"
    by (simp add: on_close_def)
qed

theorem line_buffering_witness:
  "on_next recording_prepare \<lparr>last_buffer = []\<rparr> ''path=/tmp/'' []
     = Some (None, \<lparr>last_buffer = ''path=/tmp/''\<rparr>, [])
   \<and> on_next recording_prepare \<lparr>last_buffer = ''path=/tmp/''\<rparr> (''img.png'' @ [CHR 0x0A]) []
     = Some (None, \<lparr>last_buffer = []\<rparr>, [''path=/tmp/img.png''])
   \<and> on_close recording_prepare \<lparr>last_buffer = []\<rparr> [''path=/tmp/img.png'']
     = Some (None, \<lparr>last_buffer = []\<rparr>, [''path=/tmp/img.png''])"
proof -
  note t = line_buffering [where prepare = recording_prepare]
  have "on_next recording_prepare \<lparr>last_buffer = []\<rparr> ''path=/tmp/'' []
      = Some (None, \<lparr>last_buffer = ''path=/tmp/''\<rparr>, [])"
    using t [where self = "\<lparr>last_buffer = []\<rparr>" and chunk = "''path=/tmp/''" and st = "[]"]
    by simp
  moreover have "on_next recording_prepare \<lparr>last_buffer = ''path=/tmp/''\<rparr>
      (''img.png'' @ [CHR 0x0A]) [] = Some (None, \<lparr>last_buffer = []\<rparr>, [''path=/tmp/img.png''])"
    using t [where self = "\<lparr>last_buffer = ''path=/tmp/''\<rparr>" and chunk = "''img.png'' @ [CHR 0x0A]"
        and st = "[]" and lines = "''path=/tmp/img.png''" and rest = "[]"]
    by (simp add: recording_prepare_def)
  moreover have "on_close recording_prepare \<lparr>last_buffer = []\<rparr> [''path=/tmp/img.png'']
      = Some (None, \<lparr>last_buffer = []\<rparr>, [''path=/tmp/img.png''])"
    using t [where self = "\<lparr>last_buffer = []\<rparr>" and st = "[''path=/tmp/img.png'']"]
    by simp
  ultimately show ?thesis by simp
qed

section \<open>Properties of the notification of listeners\<close>

lemma notify_listeners_fields:
  "inline_images (notify_listeners ls original_path download_path st) = inline_images st
   \<and> inline_image_listeners (notify_listeners ls original_path download_path st)
       = inline_image_listeners st
   \<and> prepared_files (notify_listeners ls original_path download_path st) = prepared_files st"
  by (induction ls arbitrary: st) (auto simp: logged_def split: prod.splits option.splits)

lemma notify_listeners_world:
  "world (notify_listeners ls original_path download_path st)
     = foldl (\<lambda>w listener. snd (listener original_path download_path w)) (world st) ls"
  by (induction ls arbitrary: st) (auto simp: logged_def split: prod.splits option.splits)

lemma notify_listeners_log:
  "log (notify_listeners ls original_path download_path st)
     = log st @ map (\<lambda>e. (ERROR, ''Failed to notify image listener''))
         [e. Some e \<leftarrow> listener_outcomes ls original_path download_path (world st)]"
  by (induction ls arbitrary: st) (auto simp: logged_def split: prod.splits option.splits)

lemma listener_outcomes_length:
  "length (listener_outcomes ls original_path download_path w) = length ls"
  by (induction ls arbitrary: w) (auto split: prod.splits)

lemma add_inline_image_listeners:
  "inline_image_listeners (add_inline_image original_path download_path st)
     = inline_image_listeners st"
  by (simp add: add_inline_image_def notify_listeners_fields)

lemma add_inline_images_world:
  "world (add_inline_images images st)
     = foldl (\<lambda>w (key, val).
           foldl (\<lambda>w listener. snd (listener key val w)) w (inline_image_listeners st))
         (world st) (new_images images (dom (inline_images st)))"
proof (induction images arbitrary: st)
  case Nil
  show ?case by simp
next
  case (Cons image images)
  obtain key val where image: "image = (key, val)" by (cases image)
  let ?st = "add_inline_image key val st"
  note ih = Cons.IH [of ?st]
  show ?case
  proof (cases "key \<in> dom (inline_images st)")
    case True
    then have "?st = st" by (simp add: add_inline_image_def)
    with ih True image show ?thesis by simp
  next
    case False
    then have "world ?st
        = foldl (\<lambda>w listener. snd (listener key val w)) (world st) (inline_image_listeners st)"
      and "dom (inline_images ?st) = insert key (dom (inline_images st))"
      by (simp_all add: add_inline_image_def notify_listeners_world notify_listeners_fields)
    with ih False image show ?thesis
      by (simp add: add_inline_image_listeners)
  qed
qed

text \<open>
  Claim C9. For an original path that is already among the inline images,
  \<open>_add_inline_image\<close> changes nothing and calls no listener. For a new one it records the
  image and calls every registered listener once, in the order of registration,
  whether or not an earlier one raised; it logs one error for each listener that
  raised. Over a sequence of images, the listeners are told of exactly the new images,
  each once, in the order of discovery.
\<close>

theorem listeners_notified_once_in_order:
  "(original_path \<in> dom (inline_images st)
      \<longrightarrow> add_inline_image original_path download_path st = st)
   \<and> (original_path \<notin> dom (inline_images st)
      \<longrightarrow> world (add_inline_image original_path download_path st)
            = foldl (\<lambda>w listener. snd (listener original_path download_path w)) (world st)
                (inline_image_listeners st)
          \<and> log (add_inline_image original_path download_path st)
            = log st @ map (\<lambda>e. (ERROR, ''Failed to notify image listener''))
                [e. Some e \<leftarrow> listener_outcomes (inline_image_listeners st) original_path
                                download_path (world st)]
          \<and> inline_images (add_inline_image original_path download_path st)
            = (inline_images st)(original_path \<mapsto> download_path))
   \<and> length (listener_outcomes (inline_image_listeners st) original_path download_path (world st))
       = length (inline_image_listeners st)
   \<and> world (add_inline_images images st)
       = foldl (\<lambda>w (key, val).
             foldl (\<lambda>w listener. snd (listener key val w)) w (inline_image_listeners st))
           (world st) (new_images images (dom (inline_images st)))"
proof (intro conjI impI)
  assume "original_path \<in> dom (inline_images st)"
  then show "add_inline_image original_path download_path st = st"
    by (simp add: add_inline_image_def)
next
  assume new: "original_path \<notin> dom (inline_images st)"
  then show "world (add_inline_image original_path download_path st)
      = foldl (\<lambda>w listener. snd (listener original_path download_path w)) (world st)
          (inline_image_listeners st)"
    by (simp add: add_inline_image_def notify_listeners_world)
  from new show "log (add_inline_image original_path download_path st)
      = log st @ map (\<lambda>e. (ERROR, ''Failed to notify image listener''))
          [e. Some e \<leftarrow> listener_outcomes (inline_image_listeners st) original_path
                          download_path (world st)]"
    by (simp add: add_inline_image_def notify_listeners_log)
  from new show "inline_images (add_inline_image original_path download_path st)
      = (inline_images st)(original_path \<mapsto> download_path)"
    by (simp add: add_inline_image_def notify_listeners_fields)
next
  show "length (listener_outcomes (inline_image_listeners st) original_path download_path (world st))
      = length (inline_image_listeners st)"
    by (rule listener_outcomes_length)
next
  show "world (add_inline_images images st)
      = foldl (\<lambda>w (key, val).
            foldl (\<lambda>w listener. snd (listener key val w)) w (inline_image_listeners st))
          (world st) (new_images images (dom (inline_images st)))"
    by (rule add_inline_images_world)
qed

theorem listeners_notified_once_in_order_witness:
  "notified (world (add_inline_images
       [(''/tmp/a.png'', ''/downloads/a.png''), (''/tmp/b.png'', ''/downloads/b.png''),
        (''/tmp/a.png'', ''/downloads/a.png'')] example_state))
     = [(''first'', ''/tmp/a.png'', ''/downloads/a.png''),
        (''second'', ''/tmp/a.png'', ''/downloads/a.png''),
        (''first'', ''/tmp/b.png'', ''/downloads/b.png''),
        (''second'', ''/tmp/b.png'', ''/downloads/b.png'')]
   \<and> log (add_inline_image ''/tmp/a.png'' ''/downloads/a.png'' example_state)
     = [(ERROR, ''Failed to notify image listener'')]"
proof -
  have new: "''/tmp/a.png'' \<notin> dom (inline_images example_state)"
    by (simp add: example_state_def)
  note t = listeners_notified_once_in_order [where st = example_state
      and original_path = "''/tmp/a.png''" and download_path = "''/downloads/a.png''"
      and images = "[(''/tmp/a.png'', ''/downloads/a.png''), (''/tmp/b.png'', ''/downloads/b.png''),
        (''/tmp/a.png'', ''/downloads/a.png'')]"]
  from t new show ?thesis
    by (simp add: example_state_def example_world_def raising_listener_def
        recording_listener_def)
qed

section \<open>Properties of the declared paths\<close>

lemma py_strip_empty_iff: "py_strip s = [] \<longleftrightarrow> (\<forall>c\<in>set s. py_isspace c)"
proof
  assume "\<forall>c\<in>set s. py_isspace c"
  then show "py_strip s = []"
    by (auto simp: py_strip_def dest: set_dropWhileD)
next
  assume "py_strip s = []"
  then have all: "\<forall>c\<in>set (dropWhile py_isspace s). py_isspace c"
    by (simp add: py_strip_def dropWhile_eq_Nil_conv)
  have "dropWhile py_isspace s = []"
  proof (rule ccontr)
    assume ne: "dropWhile py_isspace s \<noteq> []"
    then have "\<not> py_isspace (hd (dropWhile py_isspace s))" by (rule hd_dropWhile)
    with all ne show False by simp
  qed
  then show "\<forall>c\<in>set s. py_isspace c" by (simp add: dropWhile_eq_Nil_conv)
qed

lemma extract_path_declared:
  assumes "\<forall>path. is_blank h path = blank path"
  shows "extract_path h file = Inr p \<Longrightarrow>
    (case p of None \<Rightarrow> [] | Some s \<Rightarrow> if s = [] then [] else [s])
      = (case declared_path file of None \<Rightarrow> [] | Some s \<Rightarrow> [s])"
    and "\<exists>p. extract_path h file = Inr p"
  using assms
  by (auto simp: extract_path_def declared_path_def blank_def py_strip_empty_iff Let_def
      split: output_file.splits option.splits if_splits)

lemma extract_paths_declared:
  assumes "\<forall>path. is_blank h path = blank path"
  shows "\<exists>paths. extract_paths h predicate files = Inr paths
    \<and> [p. Some p \<leftarrow> paths, p \<noteq> []] = List.map_filter declared_path (filter predicate files)"
proof (induction files)
  case Nil
  show ?case by (simp add: List.map_filter_simps)
next
  case (Cons f files)
  then obtain paths where ih: "extract_paths h predicate files = Inr paths"
    "[p. Some p \<leftarrow> paths, p \<noteq> []] = List.map_filter declared_path (filter predicate files)"
    by blast
  show ?case
  proof (cases "predicate f")
    case False
    with ih show ?thesis by simp
  next
    case True
    from extract_path_declared(2) [OF assms, of f] obtain p where p: "extract_path h f = Inr p"
      by blast
    from extract_path_declared(1) [OF assms p]
    have "(case p of None \<Rightarrow> [] | Some s \<Rightarrow> if s = [] then [] else [s])
        = (case declared_path f of None \<Rightarrow> [] | Some s \<Rightarrow> [s])" .
    with True p ih show ?thesis
      by (auto simp: List.map_filter_simps split: option.splits if_splits)
  qed
qed

text \<open>
  Claim C10. When \<open>is_blank\<close> holds of exactly the missing, empty and whitespace-only
  values: an entry that is neither a string nor a dict passes neither predicate and is
  ignored; of the entries that pass the predicate, a dict whose \<open>path\<close> is blank
  contributes nothing, any other dict contributes its \<open>path\<close> stripped of surrounding
  whitespace, and parameter substitution is applied to what remains.
\<close>

theorem declared_paths_extracted:
  assumes "\<forall>path. is_blank h path = blank path"
  shows "get_paths h config parameter_values predicate
      = (if is_empty h (output_files config) then Inr []
         else Inr (map (\<lambda>p. fill_parameter_values h (parameters config) p parameter_values)
                (List.map_filter declared_path (filter predicate (output_files config)))))
    \<and> \<not> is_post_finish_path Other \<and> \<not> is_inline_image_path Other
    \<and> declared_path Other = None
    \<and> (blank (map_of d ''path'') \<longrightarrow> declared_path (Dict d) = None)
    \<and> (map_of d ''path'' = Some p \<and> \<not> blank (Some p)
        \<longrightarrow> declared_path (Dict d) = Some (py_strip p))"
proof -
  from extract_paths_declared [OF assms, of predicate "output_files config"]
  obtain paths where "extract_paths h predicate (output_files config) = Inr paths"
    and "[p. Some p \<leftarrow> paths, p \<noteq> []]
      = List.map_filter declared_path (filter predicate (output_files config))"
    by blast
  then have "get_paths h config parameter_values predicate
      = (if is_empty h (output_files config) then Inr []
         else Inr (map (\<lambda>p. fill_parameter_values h (parameters config) p parameter_values)
                (List.map_filter declared_path (filter predicate (output_files config)))))"
    by (simp add: get_paths_def substitute_parameter_values_def)
  moreover have "\<not> is_post_finish_path Other" "\<not> is_inline_image_path Other"
    by (simp_all add: is_post_finish_path_def is_inline_image_path_def)
  moreover have "declared_path Other = None"
    by (simp add: declared_path_def)
  moreover have "blank (map_of d ''path'') \<longrightarrow> declared_path (Dict d) = None"
    by (auto simp: declared_path_def blank_def split: option.splits)
  moreover have "map_of d ''path'' = Some p \<and> \<not> blank (Some p)
      \<longrightarrow> declared_path (Dict d) = Some (py_strip p)"
    by (simp add: declared_path_def)
  ultimately show ?thesis by blast
qed

theorem declared_paths_extracted_witness:
  "get_paths example_helpers example_config ''ann'' is_post_finish_path
     = Inr [''/home/ann/out.txt'', ''/var/log/run.log'']
   \<and> get_paths example_helpers example_config ''ann'' is_inline_image_path
     = Inr [''/tmp/img.png'']"
proof -
  have h: "\<forall>path. is_blank example_helpers path = blank path"
    by (simp add: example_helpers_def)
  note t = declared_paths_extracted [OF h, where config = example_config
      and parameter_values = "''ann''"]
  have "get_paths example_helpers example_config ''ann'' is_post_finish_path
      = Inr [''/home/ann/out.txt'', ''/var/log/run.log'']"
    using t [where predicate = is_post_finish_path]
    by (simp add: example_helpers_def example_config_def is_post_finish_path_def
        INLINE_IMAGE_TYPE_def List.map_filter_simps declared_path_def blank_def
        py_isspace_def py_strip_def startswith_def)
  moreover have "get_paths example_helpers example_config ''ann'' is_inline_image_path
      = Inr [''/tmp/img.png'']"
    using t [where predicate = is_inline_image_path]
    by (simp add: example_helpers_def example_config_def is_inline_image_path_def
        INLINE_IMAGE_TYPE_def List.map_filter_simps declared_path_def blank_def
        py_isspace_def py_strip_def startswith_def)
  ultimately show ?thesis by simp
qed

section \<open>Properties of the resolver\<close>

lemma check_files_result:
  assumes "check_files env should_exist wd files correct_files st = (correct_files', st')"
  shows "world st' = world st \<and> prepared_files st' = prepared_files st
    \<and> download_folder st' = download_folder st
    \<and> set correct_files'
        = set correct_files \<union> {p. \<exists>f\<in>set files. p = normalize_path env f wd
            \<and> path_exists env (world st) p \<and> \<not> path_isdir env (world st) p}
    \<and> (distinct correct_files \<longrightarrow> distinct correct_files')"
  using assms
proof (induction files arbitrary: correct_files st)
  case Nil
  then show ?case by simp
next
  case (Cons x files)
  let ?p = "normalize_path env x wd"
  show ?case
  proof (cases "path_exists env (world st) ?p \<and> \<not> path_isdir env (world st) ?p")
    case False
    define st1 where "st1 =
      (if \<not> path_exists env (world st) ?p then
         (if should_exist
          then logged WARNING (''file '' @ x @ '' (full path = '' @ ?p @ '') not found'') st
          else st)
       else logged WARNING (''file '' @ x @ '' is a directory. Not allowed'') st)"
    have st1: "world st1 = world st" "prepared_files st1 = prepared_files st"
        "download_folder st1 = download_folder st"
      by (simp_all add: st1_def logged_def)
    have rec: "check_files env should_exist wd files correct_files st1 = (correct_files', st')"
      using Cons.prems False by (auto simp: Let_def st1_def)
    from Cons.IH [OF rec] st1 False show ?thesis by auto
  next
    case True
    show ?thesis
    proof (cases "?p \<in> set correct_files")
      case dup: True
      with True Cons.prems
      have rec: "check_files env should_exist wd files correct_files st = (correct_files', st')"
        by (simp add: Let_def)
      from Cons.IH [OF rec] True dup show ?thesis by auto
    next
      case new: False
      with True Cons.prems
      have rec: "check_files env should_exist wd files (correct_files @ [?p]) st
          = (correct_files', st')"
        by (simp add: Let_def)
      from Cons.IH [OF rec] True new show ?thesis by auto
    qed
  qed
qed

lemma resolve_files_result:
  assumes "\<forall>decl\<in>set decls. \<exists>files. find_matching_files env (world st) decl out = Some (Inr files)"
  shows "\<exists>correct_files' st'.
      resolve_files env should_exist wd out decls correct_files st = Some (Inr correct_files', st')
    \<and> world st' = world st \<and> prepared_files st' = prepared_files st
    \<and> download_folder st' = download_folder st
    \<and> set correct_files'
        = set correct_files \<union> {p. \<exists>decl\<in>set decls. \<exists>files f.
            find_matching_files env (world st) decl out = Some (Inr files) \<and> f \<in> set files
            \<and> p = normalize_path env f wd
            \<and> path_exists env (world st) p \<and> \<not> path_isdir env (world st) p}
    \<and> (distinct correct_files \<longrightarrow> distinct correct_files')"
  using assms
proof (induction decls arbitrary: correct_files st)
  case Nil
  then show ?case by simp
next
  case (Cons decl decls)
  from Cons.prems obtain files
    where files: "find_matching_files env (world st) decl out = Some (Inr files)"
    by auto
  obtain cf1 st1 where chk: "check_files env should_exist wd files correct_files st = (cf1, st1)"
    by (cases "check_files env should_exist wd files correct_files st")
  note c = check_files_result [OF chk]
  define st2 where "st2 = (if files \<noteq> [] then st1
    else if should_exist then logged WARNING (''Couldn't find file for '' @ decl) st else st)"
  define cf2 where "cf2 = (if files \<noteq> [] then cf1 else correct_files)"
  have w2: "world st2 = world st" "prepared_files st2 = prepared_files st"
    "download_folder st2 = download_folder st"
    using c by (auto simp: st2_def logged_def)
  have step: "resolve_files env should_exist wd out (decl # decls) correct_files st
      = resolve_files env should_exist wd out decls cf2 st2"
    using files chk by (simp add: st2_def cf2_def)
  have set2: "set cf2 = set correct_files \<union> {p. \<exists>f\<in>set files. p = normalize_path env f wd
      \<and> path_exists env (world st) p \<and> \<not> path_isdir env (world st) p}"
    using c by (auto simp: cf2_def)
  have d2: "distinct correct_files \<longrightarrow> distinct cf2"
    using c by (simp add: cf2_def)
  from Cons.prems w2
  have "\<forall>decl\<in>set decls. \<exists>files. find_matching_files env (world st2) decl out = Some (Inr files)"
    by simp
  from Cons.IH [OF this, of cf2] obtain cf' st'
    where r: "resolve_files env should_exist wd out decls cf2 st2 = Some (Inr cf', st')"
      and w: "world st' = world st2" "prepared_files st' = prepared_files st2"
        "download_folder st' = download_folder st2"
      and s: "set cf' = set cf2 \<union> {p. \<exists>decl\<in>set decls. \<exists>files f.
            find_matching_files env (world st2) decl out = Some (Inr files) \<and> f \<in> set files
            \<and> p = normalize_path env f wd
            \<and> path_exists env (world st2) p \<and> \<not> path_isdir env (world st2) p}"
      and d: "distinct cf2 \<longrightarrow> distinct cf'"
    by blast
  have "set cf' = set correct_files \<union> {p. \<exists>decl\<in>set (decl # decls). \<exists>files f.
            find_matching_files env (world st) decl out = Some (Inr files) \<and> f \<in> set files
            \<and> p = normalize_path env f wd
            \<and> path_exists env (world st) p \<and> \<not> path_isdir env (world st) p}"
    unfolding s set2 w2 using files by auto
  with step r w w2 d d2 show ?case by auto
qed

text \<open>
  Claim C8. When the matcher returns for every declaration, the first half of
  \<open>_prepare_downloadable_files\<close> returns too, changes nothing in the world, and accepts
  exactly the candidates whose path, normalized against the working directory, exists
  and is not a directory, each normalized path once: a candidate is left out exactly
  when its normalized path does not exist, is a directory, or was accepted already. The
  accepted paths are what is staged.
\<close>

theorem resolver_filters_candidates:
  assumes "\<forall>decl\<in>set decls. \<exists>files.
      find_matching_files env (world st) decl script_output = Some (Inr files)"
  shows "\<exists>correct_files st'.
      resolve_files env should_exist (working_directory config) script_output decls [] st
        = Some (Inr correct_files, st')
    \<and> world st' = world st
    \<and> distinct correct_files
    \<and> set correct_files
        = {p. \<exists>decl\<in>set decls. \<exists>files f.
            find_matching_files env (world st) decl script_output = Some (Inr files)
            \<and> f \<in> set files
            \<and> p = normalize_path env f (working_directory config)
            \<and> path_exists env (world st) p \<and> \<not> path_isdir env (world st) p}
    \<and> prepare_downloadable_files env decls config script_output should_exist st
        = (if correct_files = [] then Some (Inr [], st')
           else Some (stage_files env correct_files [] st'))"
proof -
  from resolve_files_result [OF assms, of should_exist "working_directory config" "[]"]
  obtain correct_files st'
    where r: "resolve_files env should_exist (working_directory config) script_output decls [] st
        = Some (Inr correct_files, st')"
      and w: "world st' = world st" and d: "distinct correct_files"
      and s: "set correct_files
        = {p. \<exists>decl\<in>set decls. \<exists>files f.
            find_matching_files env (world st) decl script_output = Some (Inr files)
            \<and> f \<in> set files
            \<and> p = normalize_path env f (working_directory config)
            \<and> path_exists env (world st) p \<and> \<not> path_isdir env (world st) p}"
    by auto
  from r have "prepare_downloadable_files env decls config script_output should_exist st
      = (if correct_files = [] then Some (Inr [], st')
         else Some (stage_files env correct_files [] st'))"
    by (simp add: prepare_downloadable_files_def)
  with r w d s show ?thesis by blast
qed

lemma find_matching_files_literal:
  "CHR ''#'' \<notin> set p \<Longrightarrow> CHR ''*'' \<notin> set p \<Longrightarrow>
   find_matching_files env w p script_output = Some (Inr [p])"
  using loop_literals [of "[p]" env w script_output "[]"]
  by (simp add: find_matching_files_def)

lemma example_glob:
  "find_matching_files example_env example_world ''/srv/*.log'' script_output
     = Some (Inr [''/srv/a.log'', ''/srv/b.log''])"
proof -
  have "find_matching_files_loop example_env example_world script_output [''/srv/*.log''] []
      = find_matching_files_loop example_env example_world script_output []
          [''/srv/a.log'', ''/srv/b.log'']"
    by (subst find_matching_files_loop.simps)
       (simp add: find_directive_no_marker example_env_def example_world_def)
  also have "\<dots> = Some (Inr [''/srv/a.log'', ''/srv/b.log''])"
    by (subst find_matching_files_loop.simps) simp
  finally show ?thesis by (simp add: find_matching_files_def)
qed

lemma example_env_reads:
  "normalize_path example_env p wd = (if startswith p ''/'' then p else wd @ ''/'' @ p)"
  "path_exists example_env w p = (p \<in> set (regular_files w) \<or> p \<in> set (directories w))"
  "path_isdir example_env w p = (p \<in> set (directories w))"
  "path_join example_env a b = a @ ''/'' @ b"
  "path_basename example_env p = rev (takeWhile (\<lambda>c. c \<noteq> CHR ''/'') (rev p))"
  by (simp_all add: example_env_def)

lemma example_state_fields:
  "world example_state = example_world"
  "download_folder example_state = ''/downloads''"
  "prepared_files example_state = Map.empty"
  "log example_state = []"
  by (simp_all add: example_state_def)

lemma example_world_fields:
  "regular_files example_world
     = [''/tmp/img.png'', ''/srv/a.log'', ''/srv/b.log'', ''/data/locked.bin'', ''/work/out.txt'']"
  "directories example_world = [''/tmp'', ''/srv'', ''/data'', ''/downloads'', ''/work'']"
  "unreadable example_world = [''/data/locked.bin'']"
  "notified example_world = []"
  by (simp_all add: example_world_def)

lemma example_resolution:
  "resolve_files example_env True ''/work'' []
     [''/tmp/img.png'', ''/tmp'', ''/nope'', ''/srv/*.log'', ''/srv/a.log'', ''out.txt'',
      ''/work/out.txt''] [] example_state
   = Some (Inr [''/tmp/img.png'', ''/srv/a.log'', ''/srv/b.log'', ''/work/out.txt''],
       example_state\<lparr>log :=
         [(WARNING, ''file /tmp is a directory. Not allowed''),
          (WARNING, ''file /nope (full path = /nope) not found'')]\<rparr>)"
  by (simp add: example_state_fields find_matching_files_literal example_glob Let_def
      logged_def example_env_reads startswith_def example_world_fields)

theorem resolver_filters_candidates_witness:
  "resolve_files example_env True ''/work'' []
     [''/tmp/img.png'', ''/tmp'', ''/nope'', ''/srv/*.log'', ''/srv/a.log'', ''out.txt'',
      ''/work/out.txt''] [] example_state
   = Some (Inr [''/tmp/img.png'', ''/srv/a.log'', ''/srv/b.log'', ''/work/out.txt''],
       example_state\<lparr>log :=
         [(WARNING, ''file /tmp is a directory. Not allowed''),
          (WARNING, ''file /nope (full path = /nope) not found'')]\<rparr>)
   \<and> prepare_downloadable_files example_env
       [''/tmp/img.png'', ''/tmp'', ''/nope'', ''/srv/*.log'', ''/srv/a.log'', ''out.txt'',
        ''/work/out.txt'']
       example_config [] True example_state
     = Some (stage_files example_env
         [''/tmp/img.png'', ''/srv/a.log'', ''/srv/b.log'', ''/work/out.txt''] []
         (example_state\<lparr>log :=
           [(WARNING, ''file /tmp is a directory. Not allowed''),
            (WARNING, ''file /nope (full path = /nope) not found'')]\<rparr>))"
proof -
  let ?decls = "[''/tmp/img.png'', ''/tmp'', ''/nope'', ''/srv/*.log'', ''/srv/a.log'',
    ''out.txt'', ''/work/out.txt'']"
  have h: "\<forall>decl\<in>set ?decls. \<exists>files.
      find_matching_files example_env (world example_state) decl [] = Some (Inr files)"
    by (simp add: example_state_def find_matching_files_literal example_glob)
  let ?cfg = "example_config"
  have wd: "working_directory ?cfg = ''/work''" by (simp add: example_config_def)
  from resolver_filters_candidates [OF h, of True ?cfg]
  obtain correct_files st'
    where r: "resolve_files example_env True (working_directory ?cfg) [] ?decls [] example_state
        = Some (Inr correct_files, st')"
      and p: "prepare_downloadable_files example_env ?decls ?cfg [] True example_state
        = (if correct_files = [] then Some (Inr [], st')
           else Some (stage_files example_env correct_files [] st'))"
    by blast
  from r have "correct_files = [''/tmp/img.png'', ''/srv/a.log'', ''/srv/b.log'', ''/work/out.txt'']"
    and "st' = example_state\<lparr>log :=
            [(WARNING, ''file /tmp is a directory. Not allowed''),
             (WARNING, ''file /nope (full path = /nope) not found'')]\<rparr>"
    unfolding wd example_resolution by simp_all
  with p have "prepare_downloadable_files example_env ?decls ?cfg [] True example_state
      = Some (stage_files example_env
          [''/tmp/img.png'', ''/srv/a.log'', ''/srv/b.log'', ''/work/out.txt''] []
          (example_state\<lparr>log :=
            [(WARNING, ''file /tmp is a directory. Not allowed''),
             (WARNING, ''file /nope (full path = /nope) not found'')]\<rparr>))"
    by (simp only: list.distinct if_False)
  with example_resolution show ?thesis by (rule conjI)
qed

section \<open>Properties of staging\<close>

lemma map_of_dict_set: "map_of (dict_set d k v) = (map_of d)(k \<mapsto> v)"
  by (induction d k v rule: dict_set.induct) (auto simp: fun_eq_iff)

lemma stage_files_memo:
  assumes "stage_files env files result st = (r, st')" and "prepared_files st p = Some d"
  shows "prepared_files st' p = Some d \<and> download_folder st' = download_folder st"
  using assms
proof (induction files arbitrary: result st)
  case Nil
  then show ?case by simp
next
  case (Cons x files)
  show ?case
  proof (cases "prepared_files st x")
    case (Some staged)
    with Cons.prems have "stage_files env files (dict_set result x staged) st = (r, st')"
      by simp
    from Cons.IH [OF this Cons.prems(2)] show ?thesis .
  next
    case None
    with Cons.prems(2) have ne: "x \<noteq> p" by auto
    let ?pref = "path_join env (download_folder st) (path_basename env x)"
    show ?thesis
    proof (cases "create_unique_filename env (world st) ?pref")
      case (Inl e)
      show ?thesis
      proof (cases "e = FileExistsException")
        case True
        with None Inl Cons.prems
        have "stage_files env files result (logged EXCEPTION ''Cannot get unique name'' st)
            = (r, st')"
          by simp
        from Cons.IH [OF this] Cons.prems(2) show ?thesis by (simp add: logged_def)
      next
        case False
        with None Inl Cons.prems show ?thesis by auto
      qed
    next
      case (Inr download_file)
      obtain err w' where cp: "copyfile env x download_file (world st) = (err, w')"
        by (cases "copyfile env x download_file (world st)")
      show ?thesis
      proof (cases err)
        case (Some e)
        with None Inr cp Cons.prems show ?thesis by auto
      next
        case none: None
        let ?st = "st\<lparr>world := w', prepared_files := (prepared_files st)(x \<mapsto> download_file)\<rparr>"
        from None Inr cp none Cons.prems
        have "stage_files env files (dict_set result x download_file) ?st = (r, st')"
          by simp
        from Cons.IH [OF this] Cons.prems(2) ne show ?thesis by simp
      qed
    qed
  qed
qed

lemma stage_files_returns_memo:
  assumes "stage_files env files result st = (Inr res, st')"
    and "prepared_files st p = Some d"
    and "p \<in> set files \<or> map_of result p = Some d"
  shows "map_of res p = Some d"
  using assms
proof (induction files arbitrary: result st)
  case Nil
  then show ?case by simp
next
  case (Cons x files)
  show ?case
  proof (cases "prepared_files st x")
    case (Some staged)
    with Cons.prems have rec: "stage_files env files (dict_set result x staged) st = (Inr res, st')"
      by simp
    from Some Cons.prems have "p \<in> set files \<or> map_of (dict_set result x staged) p = Some d"
      by (auto simp: map_of_dict_set)
    from Cons.IH [OF rec Cons.prems(2) this] show ?thesis .
  next
    case None
    with Cons.prems(2) have ne: "x \<noteq> p" by auto
    with Cons.prems(3) have later: "p \<in> set files \<or> map_of result p = Some d" by auto
    let ?pref = "path_join env (download_folder st) (path_basename env x)"
    show ?thesis
    proof (cases "create_unique_filename env (world st) ?pref")
      case (Inl e)
      show ?thesis
      proof (cases "e = FileExistsException")
        case True
        with None Inl Cons.prems
        have rec: "stage_files env files result (logged EXCEPTION ''Cannot get unique name'' st)
            = (Inr res, st')"
          by simp
        from Cons.prems(2)
        have "prepared_files (logged EXCEPTION ''Cannot get unique name'' st) p = Some d"
          by (simp add: logged_def)
        from Cons.IH [OF rec this later] show ?thesis .
      next
        case False
        with None Inl Cons.prems show ?thesis by auto
      qed
    next
      case (Inr download_file)
      obtain err w' where cp: "copyfile env x download_file (world st) = (err, w')"
        by (cases "copyfile env x download_file (world st)")
      show ?thesis
      proof (cases err)
        case (Some e)
        with None Inr cp Cons.prems show ?thesis by auto
      next
        case none: None
        let ?st = "st\<lparr>world := w', prepared_files := (prepared_files st)(x \<mapsto> download_file)\<rparr>"
        from None Inr cp none Cons.prems
        have rec: "stage_files env files (dict_set result x download_file) ?st = (Inr res, st')"
          by simp
        from Cons.prems(2) ne have m: "prepared_files ?st p = Some d" by simp
        from later ne have "p \<in> set files \<or> map_of (dict_set result x download_file) p = Some d"
          by (auto simp: map_of_dict_set)
        from Cons.IH [OF rec m this] show ?thesis .
      qed
    qed
  qed
qed

lemma stage_files_state_ignores_result:
  "snd (stage_files env files result st) = snd (stage_files env files result' st)"
proof (induction files arbitrary: result result' st)
  case Nil
  show ?case by simp
next
  case (Cons x files)
  show ?case
    by (auto simp: Let_def Cons.IH split: option.splits sum.splits prod.splits
        intro: Cons.IH)
qed

lemma stage_files_skips_staged:
  assumes "prepared_files st p = Some d"
  shows "snd (stage_files env files result st) = snd (stage_files env (removeAll p files) result st)"
  using assms
proof (induction files arbitrary: result st)
  case Nil
  show ?case by simp
next
  case (Cons x files)
  show ?case
  proof (cases "x = p")
    case True
    with Cons.prems
    have "snd (stage_files env (x # files) result st)
        = snd (stage_files env files (dict_set result p d) st)"
      by simp
    also have "\<dots> = snd (stage_files env files result st)"
      by (rule stage_files_state_ignores_result)
    also have "\<dots> = snd (stage_files env (removeAll p files) result st)"
      by (rule Cons.IH [OF Cons.prems])
    finally show ?thesis using True by simp
  next
    case False
    have keep: "prepared_files (logged EXCEPTION ''Cannot get unique name'' st) p = Some d"
      using Cons.prems by (simp add: logged_def)
    have upd: "prepared_files (st\<lparr>world := w', prepared_files := (prepared_files st)(x \<mapsto> dl)\<rparr>) p
        = Some d" for w' dl
      using Cons.prems False by simp
    from False show ?thesis
      by (auto simp: Let_def Cons.IH [OF Cons.prems] Cons.IH [OF keep] Cons.IH [OF upd]
          split: option.splits sum.splits prod.splits)
  qed
qed

lemma resolve_files_fields:
  assumes "resolve_files env should_exist wd out decls correct_files st = Some (r, st')"
  shows "prepared_files st' = prepared_files st \<and> world st' = world st
    \<and> download_folder st' = download_folder st"
  using assms
proof (induction decls arbitrary: correct_files st)
  case Nil
  then show ?case by simp
next
  case (Cons decl decls)
  show ?case
  proof (cases "find_matching_files env (world st) decl out")
    case None
    with Cons.prems show ?thesis by simp
  next
    case (Some m)
    show ?thesis
    proof (cases m)
      case (Inl e)
      with Some Cons.prems show ?thesis by simp
    next
      case (Inr files)
      obtain cf1 st1 where chk: "check_files env should_exist wd files correct_files st = (cf1, st1)"
        by (cases "check_files env should_exist wd files correct_files st")
      note c = check_files_result [OF chk]
      show ?thesis
      proof (cases "files = []")
        case False
        with Some Inr chk Cons.prems
        have "resolve_files env should_exist wd out decls cf1 st1 = Some (r, st')"
          by simp
        from Cons.IH [OF this] c show ?thesis by simp
      next
        case True
        let ?st = "if should_exist then logged WARNING (''Couldn't find file for '' @ decl) st else st"
        from True Some Inr Cons.prems
        have "resolve_files env should_exist wd out decls correct_files ?st = Some (r, st')"
          by simp
        from Cons.IH [OF this] show ?thesis by (simp add: logged_def)
      qed
    qed
  qed
qed

text \<open>
  Claim C2. Once \<open>p\<close> is staged as \<open>d\<close> in the handler's \<open>prepared_files\<close>: whatever a
  later call of \<open>_prepare_downloadable_files\<close> does, \<open>p\<close> stays staged as \<open>d\<close>; when the
  resolution of that call yields \<open>p\<close> and the call returns, it returns \<open>d\<close> for \<open>p\<close>;
  and staging a batch leaves the handler and the world exactly as staging the batch
  without \<open>p\<close> does: \<open>p\<close> is not copied again and gets no new name.
\<close>

theorem staging_is_idempotent:
  assumes "prepared_files st p = Some d"
  shows "(prepare_downloadable_files env decls config script_output should_exist st = Some (r, st')
        \<longrightarrow> prepared_files st' p = Some d)
    \<and> (resolve_files env should_exist (working_directory config) script_output decls [] st
          = Some (Inr correct_files, st1)
        \<and> p \<in> set correct_files
        \<and> prepare_downloadable_files env decls config script_output should_exist st
          = Some (Inr res, st')
        \<longrightarrow> map_of res p = Some d)
    \<and> snd (stage_files env files result st)
        = snd (stage_files env (removeAll p files) result st)"
proof (intro conjI impI)
  assume a: "prepare_downloadable_files env decls config script_output should_exist st
    = Some (r, st')"
  show "prepared_files st' p = Some d"
  proof (cases "resolve_files env should_exist (working_directory config) script_output decls [] st")
    case None
    with a show ?thesis by (simp add: prepare_downloadable_files_def)
  next
    case (Some x)
    obtain rr st0 where x: "x = (rr, st0)" by (cases x)
    from resolve_files_fields [OF Some [unfolded x]] assms
    have m: "prepared_files st0 p = Some d" by simp
    show ?thesis
    proof (cases rr)
      case (Inl e)
      with a Some x m show ?thesis by (auto simp: prepare_downloadable_files_def)
    next
      case (Inr cf)
      show ?thesis
      proof (cases "cf = []")
        case True
        with a Some x Inr m show ?thesis by (auto simp: prepare_downloadable_files_def)
      next
        case False
        with a Some x Inr have "stage_files env cf [] st0 = (r, st')"
          by (simp add: prepare_downloadable_files_def)
        from stage_files_memo [OF this m] show ?thesis by simp
      qed
    qed
  qed
next
  assume a: "resolve_files env should_exist (working_directory config) script_output decls [] st
          = Some (Inr correct_files, st1)
        \<and> p \<in> set correct_files
        \<and> prepare_downloadable_files env decls config script_output should_exist st
          = Some (Inr res, st')"
  then have r: "resolve_files env should_exist (working_directory config) script_output decls [] st
      = Some (Inr correct_files, st1)"
    and p: "p \<in> set correct_files" by simp_all
  from resolve_files_fields [OF r] assms have m: "prepared_files st1 p = Some d" by simp
  from p have "correct_files \<noteq> []" by auto
  with a r have "stage_files env correct_files [] st1 = (Inr res, st')"
    by (simp add: prepare_downloadable_files_def)
  from stage_files_returns_memo [OF this m] p show "map_of res p = Some d" by simp
next
  show "snd (stage_files env files result st)
      = snd (stage_files env (removeAll p files) result st)"
    by (rule stage_files_skips_staged [OF assms])
qed

lemma example_first_pass:
  "prepare_downloadable_files example_env [''/tmp/img.png''] example_config [] True example_state
     = Some (Inr [(''/tmp/img.png'', ''/downloads/img.png'')], example_staged_state)"
proof -
  have "resolve_files example_env True ''/work'' [] [''/tmp/img.png''] [] example_state
      = Some (Inr [''/tmp/img.png''], example_state)"
    by (simp add: example_state_fields find_matching_files_literal Let_def
        example_env_reads startswith_def example_world_fields)
  moreover have "create_unique_filename example_env example_world ''/downloads/img.png''
      = Inr ''/downloads/img.png''"
    by (simp add: example_env_def example_world_fields)
  moreover have "copyfile example_env ''/tmp/img.png'' ''/downloads/img.png'' example_world
      = (None, example_world\<lparr>regular_files := regular_files example_world @ [''/downloads/img.png'']\<rparr>)"
    by (simp add: example_env_def example_world_fields)
  ultimately show ?thesis
    by (simp add: prepare_downloadable_files_def example_config_def example_state_fields
        example_env_reads Let_def example_staged_state_def)
qed

theorem staging_is_idempotent_witness:
  "prepare_downloadable_files example_env [''/tmp/img.png''] example_config [] True example_state
     = Some (Inr [(''/tmp/img.png'', ''/downloads/img.png'')], example_staged_state)
   \<and> prepare_downloadable_files example_env [''/tmp/img.png''] example_config [] True
       example_staged_state
     = Some (Inr [(''/tmp/img.png'', ''/downloads/img.png'')], example_staged_state)
   \<and> snd (stage_files example_env [''/tmp/img.png''] [] example_staged_state)
     = example_staged_state"
proof -
  have m: "prepared_files example_staged_state ''/tmp/img.png'' = Some ''/downloads/img.png''"
    by (simp add: example_staged_state_def)
  have second: "prepare_downloadable_files example_env [''/tmp/img.png''] example_config [] True
      example_staged_state
      = Some (Inr [(''/tmp/img.png'', ''/downloads/img.png'')], example_staged_state)"
  proof -
    have "resolve_files example_env True ''/work'' [] [''/tmp/img.png''] [] example_staged_state
        = Some (Inr [''/tmp/img.png''], example_staged_state)"
      by (simp add: example_staged_state_def example_state_fields find_matching_files_literal
          Let_def example_env_reads startswith_def example_world_fields)
    with m show ?thesis
      by (simp add: prepare_downloadable_files_def example_config_def)
  qed
  have "snd (stage_files example_env [''/tmp/img.png''] [] example_staged_state)
      = snd (stage_files example_env (removeAll ''/tmp/img.png'' [''/tmp/img.png'']) []
          example_staged_state)"
    by (rule staging_is_idempotent [OF m, THEN conjunct2, THEN conjunct2])
  also have "removeAll ''/tmp/img.png'' [''/tmp/img.png''] = []"
    by simp
  also have "snd (stage_files example_env [] [] example_staged_state) = example_staged_state"
    by simp
  finally have third: "snd (stage_files example_env [''/tmp/img.png''] [] example_staged_state)
      = example_staged_state" .
  from example_first_pass second third show ?thesis by (intro conjI)
qed

lemma stage_files_ignores_log:
  assumes "prepared_files st1 = prepared_files st2" and "world st1 = world st2"
    and "download_folder st1 = download_folder st2"
  shows "fst (stage_files env files result st1) = fst (stage_files env files result st2)
    \<and> prepared_files (snd (stage_files env files result st1))
        = prepared_files (snd (stage_files env files result st2))
    \<and> world (snd (stage_files env files result st1))
        = world (snd (stage_files env files result st2))"
  using assms
proof (induction files arbitrary: result st1 st2)
  case Nil
  then show ?case by simp
next
  case (Cons x files)
  show ?case
  proof (cases "prepared_files st2 x")
    case (Some staged)
    with Cons.prems Cons.IH [OF Cons.prems, of "dict_set result x staged"] show ?thesis
      by simp
  next
    case None
    let ?pref = "path_join env (download_folder st2) (path_basename env x)"
    show ?thesis
    proof (cases "create_unique_filename env (world st2) ?pref")
      case (Inl e)
      show ?thesis
      proof (cases "e = FileExistsException")
        case True
        have "prepared_files (logged EXCEPTION ''Cannot get unique name'' st1)
            = prepared_files (logged EXCEPTION ''Cannot get unique name'' st2)"
          and "world (logged EXCEPTION ''Cannot get unique name'' st1)
            = world (logged EXCEPTION ''Cannot get unique name'' st2)"
          and "download_folder (logged EXCEPTION ''Cannot get unique name'' st1)
            = download_folder (logged EXCEPTION ''Cannot get unique name'' st2)"
          using Cons.prems by (simp_all add: logged_def)
        from Cons.IH [OF this, of result] None Inl True Cons.prems show ?thesis
          by simp
      next
        case False
        with None Inl Cons.prems show ?thesis by simp
      qed
    next
      case (Inr download_file)
      obtain err w' where cp: "copyfile env x download_file (world st2) = (err, w')"
        by (cases "copyfile env x download_file (world st2)")
      show ?thesis
      proof (cases err)
        case (Some e)
        with None Inr cp Cons.prems show ?thesis by simp
      next
        case none: None
        let ?u = "\<lambda>st. st\<lparr>world := w', prepared_files := (prepared_files st)(x \<mapsto> download_file)\<rparr>"
        have "prepared_files (?u st1) = prepared_files (?u st2)"
          and "world (?u st1) = world (?u st2)"
          and "download_folder (?u st1) = download_folder (?u st2)"
          using Cons.prems by simp_all
        from Cons.IH [OF this, of "dict_set result x download_file"] None Inr cp none Cons.prems
        show ?thesis by simp
      qed
    qed
  qed
qed

lemma stage_files_skips_unnameable:
  assumes "prepared_files st f = None"
    and "\<forall>w. create_unique_filename env w (path_join env (download_folder st) (path_basename env f))
          = Inl FileExistsException"
  shows "fst (stage_files env files result st) = fst (stage_files env (removeAll f files) result st)
    \<and> prepared_files (snd (stage_files env files result st))
        = prepared_files (snd (stage_files env (removeAll f files) result st))
    \<and> world (snd (stage_files env files result st))
        = world (snd (stage_files env (removeAll f files) result st))"
  using assms
proof (induction files arbitrary: result st)
  case Nil
  show ?case by simp
next
  case (Cons x files)
  let ?lg = "logged EXCEPTION ''Cannot get unique name'' st"
  have lg: "prepared_files ?lg f = None"
    "\<forall>w. create_unique_filename env w (path_join env (download_folder ?lg) (path_basename env f))
          = Inl FileExistsException"
    using Cons.prems by (simp_all add: logged_def)
  show ?case
  proof (cases "x = f")
    case True
    with Cons.prems have "stage_files env (x # files) result st = stage_files env files result ?lg"
      by simp
    moreover note Cons.IH [OF lg, of result]
    moreover have "fst (stage_files env (removeAll f files) result ?lg)
          = fst (stage_files env (removeAll f files) result st)
        \<and> prepared_files (snd (stage_files env (removeAll f files) result ?lg))
          = prepared_files (snd (stage_files env (removeAll f files) result st))
        \<and> world (snd (stage_files env (removeAll f files) result ?lg))
          = world (snd (stage_files env (removeAll f files) result st))"
      by (rule stage_files_ignores_log) (simp_all add: logged_def)
    ultimately show ?thesis using True by simp
  next
    case False
    show ?thesis
    proof (cases "prepared_files st x")
      case (Some staged)
      with False Cons.IH [OF Cons.prems, of "dict_set result x staged"] show ?thesis
        by simp
    next
      case None
      let ?pref = "path_join env (download_folder st) (path_basename env x)"
      show ?thesis
      proof (cases "create_unique_filename env (world st) ?pref")
        case (Inl e)
        show ?thesis
        proof (cases "e = FileExistsException")
          case True
          with False None Inl Cons.IH [OF lg, of result] show ?thesis by simp
        next
          case no: False
          with False None Inl show ?thesis by simp
        qed
      next
        case (Inr download_file)
        obtain err w' where cp: "copyfile env x download_file (world st) = (err, w')"
          by (cases "copyfile env x download_file (world st)")
        show ?thesis
        proof (cases err)
          case (Some e)
          with False None Inr cp show ?thesis by simp
        next
          case none: None
          let ?st = "st\<lparr>world := w', prepared_files := (prepared_files st)(x \<mapsto> download_file)\<rparr>"
          have "prepared_files ?st f = None"
            and "\<forall>w. create_unique_filename env w
                (path_join env (download_folder ?st) (path_basename env f))
              = Inl FileExistsException"
            using Cons.prems False by simp_all
          from Cons.IH [OF this, of "dict_set result x download_file"] False None Inr cp none
          show ?thesis by simp
        qed
      qed
    qed
  qed
qed

text \<open>
  Claim C5, as amended. When no unique name can be made for the staged copy of a file
  \<open>f\<close> (\<open>create_unique_filename\<close> raises \<open>FileExistsException\<close>), staging logs it and goes
  on with the files after \<open>f\<close>; and when no unique name can be made for it in any world,
  the batch gives the result, the staged files and the world that the batch without
  \<open>f\<close> gives.
\<close>

theorem unnameable_file_is_skipped:
  "(prepared_files st f = None
      \<and> create_unique_filename env (world st)
            (path_join env (download_folder st) (path_basename env f))
          = Inl FileExistsException
    \<longrightarrow> stage_files env (f # files) result st
          = stage_files env files result (logged EXCEPTION ''Cannot get unique name'' st))
   \<and> (prepared_files st f = None
      \<and> (\<forall>w. create_unique_filename env w
              (path_join env (download_folder st) (path_basename env f))
            = Inl FileExistsException)
    \<longrightarrow> fst (stage_files env files result st)
          = fst (stage_files env (removeAll f files) result st)
        \<and> prepared_files (snd (stage_files env files result st))
          = prepared_files (snd (stage_files env (removeAll f files) result st))
        \<and> world (snd (stage_files env files result st))
          = world (snd (stage_files env (removeAll f files) result st)))"
proof (intro conjI impI)
  assume "prepared_files st f = None
      \<and> create_unique_filename env (world st)
            (path_join env (download_folder st) (path_basename env f))
          = Inl FileExistsException"
  then show "stage_files env (f # files) result st
      = stage_files env files result (logged EXCEPTION ''Cannot get unique name'' st)"
    by simp
next
  assume a: "prepared_files st f = None
      \<and> (\<forall>w. create_unique_filename env w
              (path_join env (download_folder st) (path_basename env f))
            = Inl FileExistsException)"
  then have h1: "prepared_files st f = None"
    and h2: "\<forall>w. create_unique_filename env w
        (path_join env (download_folder st) (path_basename env f)) = Inl FileExistsException"
    by simp_all
  from stage_files_skips_unnameable [OF h1 h2, of files result]
  show "fst (stage_files env files result st)
      = fst (stage_files env (removeAll f files) result st)"
    and "prepared_files (snd (stage_files env files result st))
      = prepared_files (snd (stage_files env (removeAll f files) result st))"
    and "world (snd (stage_files env files result st))
      = world (snd (stage_files env (removeAll f files) result st))"
    by simp_all
qed

lemma crowded_env_reads:
  "path_join crowded_env a b = a @ ''/'' @ b"
  "path_basename crowded_env p = rev (takeWhile (\<lambda>c. c \<noteq> CHR ''/'') (rev p))"
  "create_unique_filename crowded_env w p
     = (if p = ''/downloads/img.png'' then Inl FileExistsException
        else create_unique_filename example_env w p)"
  "copyfile crowded_env = copyfile example_env"
  by (simp_all add: crowded_env_def example_env_def)

theorem unnameable_file_is_skipped_witness:
  "stage_files crowded_env [''/tmp/img.png'', ''/srv/a.log''] [] example_state
     = (Inr [(''/srv/a.log'', ''/downloads/a.log'')],
        example_state
          \<lparr>prepared_files := [''/srv/a.log'' \<mapsto> ''/downloads/a.log''],
           world := example_world
             \<lparr>regular_files := regular_files example_world @ [''/downloads/a.log'']\<rparr>,
           log := [(EXCEPTION, ''Cannot get unique name'')]\<rparr>)"
proof -
  have h1: "prepared_files example_state ''/tmp/img.png'' = None"
    by (simp add: example_state_fields)
  have h2: "\<forall>w. create_unique_filename crowded_env w
      (path_join crowded_env (download_folder example_state) (path_basename crowded_env ''/tmp/img.png''))
      = Inl FileExistsException"
    by (simp add: crowded_env_reads example_state_fields)
  have u: "create_unique_filename example_env example_world ''/downloads/a.log''
      = Inr ''/downloads/a.log''"
    by (simp add: example_env_def example_world_fields)
  have c: "copyfile example_env ''/srv/a.log'' ''/downloads/a.log'' example_world
      = (None, example_world\<lparr>regular_files := regular_files example_world @ [''/downloads/a.log'']\<rparr>)"
    by (simp add: example_env_def example_world_fields)
  have "stage_files crowded_env [''/srv/a.log''] []
      (logged EXCEPTION ''Cannot get unique name'' example_state)
      = (Inr [(''/srv/a.log'', ''/downloads/a.log'')],
        example_state
          \<lparr>prepared_files := [''/srv/a.log'' \<mapsto> ''/downloads/a.log''],
           world := example_world
             \<lparr>regular_files := regular_files example_world @ [''/downloads/a.log'']\<rparr>,
           log := [(EXCEPTION, ''Cannot get unique name'')]\<rparr>)"
    by (simp add: logged_def example_state_fields crowded_env_reads u c Let_def)
  moreover from unnameable_file_is_skipped [where st = example_state and f = "''/tmp/img.png''"
      and env = crowded_env and files = "[''/srv/a.log'']" and result = "[]"] h1 h2
  have "stage_files crowded_env [''/tmp/img.png'', ''/srv/a.log''] [] example_state
      = stage_files crowded_env [''/srv/a.log''] []
          (logged EXCEPTION ''Cannot get unique name'' example_state)"
    by blast
  ultimately show ?thesis by (simp only:)
qed

text \<open>
  Claim C5 as stated fails: \<open>copyfile\<close> is called outside the \<open>try\<close>. The copy of the
  first file of the batch fails; the exception leaves \<open>_prepare_downloadable_files\<close>,
  nothing is logged and the second file is not staged.
\<close>

theorem copy_failure_aborts_batch_counterexample:
  "prepare_downloadable_files example_env [''/data/locked.bin'', ''/tmp/img.png''] example_config
     [] True example_state
   = Some (Inl (OtherError ''PermissionError''), example_state)"
proof -
  have "resolve_files example_env True ''/work'' [] [''/data/locked.bin'', ''/tmp/img.png''] []
      example_state = Some (Inr [''/data/locked.bin'', ''/tmp/img.png''], example_state)"
    by (simp add: example_state_fields find_matching_files_literal Let_def
        example_env_reads startswith_def example_world_fields)
  moreover have "create_unique_filename example_env example_world ''/downloads/locked.bin''
      = Inr ''/downloads/locked.bin''"
    by (simp add: example_env_def example_world_fields)
  moreover have "copyfile example_env ''/data/locked.bin'' ''/downloads/locked.bin'' example_world
      = (Some (OtherError ''PermissionError''), example_world)"
    by (simp add: example_env_def example_world_fields)
  ultimately show ?thesis
    by (simp add: prepare_downloadable_files_def example_config_def example_state_fields
        example_env_reads Let_def)
qed

end
